theory Spec2Isabelle
  imports Complex_Main "HOL-Library.Multiset" "HOL-Library.Sublist"
begin

section \<open>Data model of the spatial index\<close>

text \<open>
  The index stores points of the plane in a quadtree. Coordinates are \<open>float64\<close> in the
  source; here they are real numbers, so rounding, infinities and NaN are left out of the
  model: the source and the model agree on a run in which no operation on coordinates
  rounds. Where a result below needs the sums to be exact, its text says so. The payload of
  a point is an arbitrary value of a type \<open>'d\<close>.
\<close>

record Bounds =
  X :: real
  Y :: real
  Width :: real
  Height :: real

record 'd Point =
  X :: real
  Y :: real
  Data :: 'd

text \<open>
  A node of the source has a slice of points, a capacity and an array of four child
  pointers. The source tests \<open>Children[0] != nil\<close> to tell an internal node from a leaf,
  and \<open>SubDivide\<close> is the only place that assigns children, all four at once: a node
  has either no child (\<open>Leaf\<close>) or four (\<open>Split\<close>, in the order NW, NE, SW, SE).
\<close>

datatype 'd Node =
  Leaf (Bounds: Bounds) (Points: "'d Point list") (Capacity: int)
| Split (Bounds: Bounds) (Points: "'d Point list") (Capacity: int)
    (NW: "'d Node") (NE: "'d Node") (SW: "'d Node") (SE: "'d Node")

text \<open>The tree: a root pointer, which may be nil. The lock is not modelled: every
  operation below is one critical section run alone.\<close>

record 'd QuadTree =
  Root :: "'d Node option"

text \<open>What a call can end in other than a result: a nil root dereferenced, or a recursion
  deeper than the fuel it was given.\<close>

datatype error = NilPointer | OutOfFuel

section \<open>Geometry\<close>

definition Intersects :: "Bounds \<Rightarrow> Bounds \<Rightarrow> bool" where
  "Intersects b other \<longleftrightarrow>
     \<not> (Bounds.X b > Bounds.X other + Width other \<or>
        Bounds.X b + Width b < Bounds.X other \<or>
        Bounds.Y b > Bounds.Y other + Height other \<or>
        Bounds.Y b + Height b < Bounds.Y other)"

definition Contains :: "Bounds \<Rightarrow> 'd Point \<Rightarrow> bool" where
  "Contains b point \<longleftrightarrow>
     X point \<ge> Bounds.X b \<and> X point \<le> Bounds.X b + Width b \<and>
     Y point \<le> Bounds.Y b + Height b \<and> Y point \<ge> Bounds.Y b"

definition Distance :: "'d Point \<Rightarrow> 'd Point \<Rightarrow> real" where
  "Distance p1 p2 =
     (let dx = X p2 - X p1; dy = Y p2 - Y p1 in sqrt (dx * dx + dy * dy))"

section \<open>Nodes\<close>

text \<open>
  The loop \<open>for i := 0; i < 4; i++ { if n.Children[i].InsertNode(p) { ... } }\<close>, which the
  source writes three times: the children are tried in order and the first that accepts
  ends the loop. A child that refuses is kept as the call left it. \<open>ins\<close> is the insertion
  into one node; \<open>None\<close> is a call that did not return.
\<close>

definition insertChildren ::
  "('d Node \<Rightarrow> 'd Point \<Rightarrow> (bool \<times> 'd Node) option) \<Rightarrow>
   'd Node \<times> 'd Node \<times> 'd Node \<times> 'd Node \<Rightarrow> 'd Point \<Rightarrow>
   (bool \<times> 'd Node \<times> 'd Node \<times> 'd Node \<times> 'd Node) option" where
  "insertChildren ins cs point =
     (case cs of (c0, c1, c2, c3) \<Rightarrow>
        (case ins c0 point of None \<Rightarrow> None
         | Some (ok0, c0') \<Rightarrow>
           if ok0 then Some (True, c0', c1, c2, c3)
           else (case ins c1 point of None \<Rightarrow> None
             | Some (ok1, c1') \<Rightarrow>
               if ok1 then Some (True, c0', c1', c2, c3)
               else (case ins c2 point of None \<Rightarrow> None
                 | Some (ok2, c2') \<Rightarrow>
                   if ok2 then Some (True, c0', c1', c2', c3)
                   else (case ins c3 point of None \<Rightarrow> None
                     | Some (ok3, c3') \<Rightarrow>
                       if ok3 then Some (True, c0', c1', c2', c3')
                       else Some (False, c0', c1', c2', c3'))))))"

text \<open>The loop of \<open>SubDivide\<close> over the points the node held: each goes to the first child
  that accepts it, and one that no child accepts is dropped.\<close>

fun reinsert ::
  "('d Node \<Rightarrow> 'd Point \<Rightarrow> (bool \<times> 'd Node) option) \<Rightarrow> 'd Point list \<Rightarrow>
   'd Node \<times> 'd Node \<times> 'd Node \<times> 'd Node \<Rightarrow>
   ('d Node \<times> 'd Node \<times> 'd Node \<times> 'd Node) option" where
  "reinsert ins [] cs = Some cs"
| "reinsert ins (p # ps) cs =
     (case insertChildren ins cs p of None \<Rightarrow> None
      | Some (ok, cs') \<Rightarrow> reinsert ins ps cs')"

definition SubDivide ::
  "('d Node \<Rightarrow> 'd Point \<Rightarrow> (bool \<times> 'd Node) option) \<Rightarrow> 'd Node \<Rightarrow> 'd Node option" where
  "SubDivide ins n =
     (let x = Bounds.X (Bounds n);
          y = Bounds.Y (Bounds n);
          w = Width (Bounds n) / 2;
          h = Height (Bounds n) / 2;
          c0 = Leaf \<lparr>Bounds.X = x, Bounds.Y = y, Width = w, Height = h\<rparr> [] (Capacity n);
          c1 = Leaf \<lparr>Bounds.X = x + w, Bounds.Y = y, Width = w, Height = h\<rparr> [] (Capacity n);
          c2 = Leaf \<lparr>Bounds.X = x, Bounds.Y = y + h, Width = w, Height = h\<rparr> [] (Capacity n);
          c3 = Leaf \<lparr>Bounds.X = x + w, Bounds.Y = y + h, Width = w, Height = h\<rparr> []
                 (Capacity n)
      in case reinsert ins (Points n) (c0, c1, c2, c3) of None \<Rightarrow> None
         | Some (c0', c1', c2', c3') \<Rightarrow>
             Some (Split (Bounds n) [] (Capacity n) c0' c1' c2' c3'))"

text \<open>
  \<open>InsertNode\<close> and \<open>SubDivide\<close> call each other, and the source bounds the depth of that
  recursion nowhere. The first argument is fuel: the depth of calls allowed. \<open>None\<close> says
  that the fuel ran out; a call that returns \<open>None\<close> for every fuel never returns.
\<close>

primrec InsertNode :: "nat \<Rightarrow> 'd Node \<Rightarrow> 'd Point \<Rightarrow> (bool \<times> 'd Node) option" where
  "InsertNode 0 n point = None"
| "InsertNode (Suc fuel) n point =
     (if \<not> Contains (Bounds n) point then Some (False, n)
      else (case n of
          Split b ps cap c0 c1 c2 c3 \<Rightarrow>
            (case insertChildren (InsertNode fuel) (c0, c1, c2, c3) point of None \<Rightarrow> None
             | Some (ok, c0', c1', c2', c3') \<Rightarrow> Some (ok, Split b ps cap c0' c1' c2' c3'))
        | Leaf b ps cap \<Rightarrow>
            if int (length ps) < cap then Some (True, Leaf b (ps @ [point]) cap)
            else (case SubDivide (InsertNode fuel) n of None \<Rightarrow> None
              | Some n' \<Rightarrow>
                (case insertChildren (InsertNode fuel) (NW n', NE n', SW n', SE n') point of
                   None \<Rightarrow> None
                 | Some (ok, c0', c1', c2', c3') \<Rightarrow>
                     Some (ok, Split (Bounds n') (Points n') (Capacity n') c0' c1' c2' c3')))))"

text \<open>The result slice is passed in and returned extended, as the source appends to the
  slice behind \<open>resultPoints\<close>. The nil receiver is the case of a nil root, in \<open>Search\<close>.\<close>

fun SearchTree :: "'d Node \<Rightarrow> Bounds \<Rightarrow> 'd Point list \<Rightarrow> 'd Point list" where
  "SearchTree (Leaf b ps cap) searchArea resultPoints =
     (if \<not> Intersects b searchArea then resultPoints
      else resultPoints @ filter (Contains searchArea) ps)"
| "SearchTree (Split b ps cap c0 c1 c2 c3) searchArea resultPoints =
     (if \<not> Intersects b searchArea then resultPoints
      else SearchTree c3 searchArea
             (SearchTree c2 searchArea
               (SearchTree c1 searchArea
                 (SearchTree c0 searchArea resultPoints))))"

text \<open>The index of the first stored point with the coordinates of \<open>point\<close>: the \<open>range\<close>
  loop of \<open>RemoveNode\<close> up to its \<open>return true\<close>.\<close>

fun firstMatch :: "'d Point list \<Rightarrow> 'd Point \<Rightarrow> nat option" where
  "firstMatch [] point = None"
| "firstMatch (exist # ps) point =
     (if X exist = X point \<and> Y exist = Y point then Some 0
      else map_option Suc (firstMatch ps point))"

fun RemoveNode :: "'d Node \<Rightarrow> 'd Point \<Rightarrow> bool \<times> 'd Node" where
  "RemoveNode (Leaf b ps cap) point =
     (if \<not> Contains b point then (False, Leaf b ps cap)
      else (case firstMatch ps point of
          None \<Rightarrow> (False, Leaf b ps cap)
        | Some i \<Rightarrow> (True, Leaf b (butlast (ps[i := last ps])) cap)))"
| "RemoveNode (Split b ps cap c0 c1 c2 c3) point =
     (if \<not> Contains b point then (False, Split b ps cap c0 c1 c2 c3)
      else
        let (ok0, c0') = RemoveNode c0 point in
        if ok0 then (True, Split b ps cap c0' c1 c2 c3)
        else
          let (ok1, c1') = RemoveNode c1 point in
          if ok1 then (True, Split b ps cap c0' c1' c2 c3)
          else
            let (ok2, c2') = RemoveNode c2 point in
            if ok2 then (True, Split b ps cap c0' c1' c2' c3)
            else
              let (ok3, c3') = RemoveNode c3 point in
              if ok3 then (True, Split b ps cap c0' c1' c2' c3')
              else (False, Split b ps cap c0' c1' c2' c3'))"

section \<open>The tree\<close>

definition Update :: "nat \<Rightarrow> 'd QuadTree \<Rightarrow> 'd Point \<Rightarrow> 'd Point \<Rightarrow> error + bool \<times> 'd QuadTree" where
  "Update fuel qt oldPoint newPoint =
     (case Root qt of None \<Rightarrow> Inl NilPointer
      | Some rootNode \<Rightarrow>
        if \<not> Contains (Bounds rootNode) newPoint then Inr (False, qt)
        else
          let (removed, r1) = RemoveNode rootNode oldPoint in
          if removed then
            (case InsertNode fuel r1 newPoint of None \<Rightarrow> Inl OutOfFuel
             | Some (inserted, r2) \<Rightarrow>
               if inserted then Inr (True, qt\<lparr>Root := Some r2\<rparr>)
               else (case InsertNode fuel r2 oldPoint of None \<Rightarrow> Inl OutOfFuel
                 | Some (restored, r3) \<Rightarrow> Inr (False, qt\<lparr>Root := Some r3\<rparr>)))
          else Inr (False, qt\<lparr>Root := Some r1\<rparr>))"

definition Remove :: "'d QuadTree \<Rightarrow> 'd Point \<Rightarrow> error + bool \<times> 'd QuadTree" where
  "Remove qt point =
     (case Root qt of None \<Rightarrow> Inl NilPointer
      | Some rootNode \<Rightarrow>
        let (res, rootNode') = RemoveNode rootNode point in Inr (res, qt\<lparr>Root := Some rootNode'\<rparr>))"

definition Insert :: "nat \<Rightarrow> 'd QuadTree \<Rightarrow> 'd Point \<Rightarrow> error + bool \<times> 'd QuadTree" where
  "Insert fuel qt point =
     (case Root qt of None \<Rightarrow> Inl NilPointer
      | Some rootNode \<Rightarrow>
        (case InsertNode fuel rootNode point of None \<Rightarrow> Inl OutOfFuel
         | Some (res, rootNode') \<Rightarrow> Inr (res, qt\<lparr>Root := Some rootNode'\<rparr>)))"

definition Search :: "'d QuadTree \<Rightarrow> Bounds \<Rightarrow> 'd Point list" where
  "Search qt area =
     (case Root qt of None \<Rightarrow> [] | Some rootNode \<Rightarrow> SearchTree rootNode area [])"

section \<open>The k nearest points\<close>

text \<open>A candidate with its distance from the target: the pair of the source's fields
  \<open>Point\<close> (the first component) and \<open>Distance\<close> (the second).\<close>

type_synonym 'd PointWithDistance = "'d Point \<times> real"

text \<open>
  The inner loop of \<open>sortByDistance\<close>, with the assignment that follows it. The source
  counts \<open>j\<close> down to \<open>-1\<close>; the counter here is \<open>j + 1\<close>, a natural number, so
  \<open>j >= 0\<close> reads \<open>Suc j\<close> and \<open>points[j+1]\<close> is the slot at the counter.
\<close>

fun insertKey :: "'d PointWithDistance list \<Rightarrow> 'd PointWithDistance \<Rightarrow> nat \<Rightarrow> 'd PointWithDistance list" where
  "insertKey points key 0 = points[0 := key]"
| "insertKey points key (Suc j) =
     (if snd (points ! j) > snd key then insertKey (points[Suc j := points ! j]) key j
      else points[Suc j := key])"

lemma length_insertKey [simp]: "length (insertKey points key m) = length points"
  by (induction m arbitrary: points) auto

text \<open>The outer loop, from \<open>i\<close> on. It ends because the inner loop keeps the length.\<close>

function sortLoop :: "nat \<Rightarrow> 'd PointWithDistance list \<Rightarrow> 'd PointWithDistance list" where
  "sortLoop i points =
     (if i < length points then sortLoop (i + 1) (insertKey points (points ! i) i)
      else points)"
  by pat_completeness auto
termination
  by (relation "measure (\<lambda>(i, points). length points - i)") auto

declare sortLoop.simps [simp del]

definition sortByDistance :: "'d PointWithDistance list \<Rightarrow> 'd PointWithDistance list" where
  "sortByDistance points = sortLoop 1 points"

text \<open>\<open>k\<close> is an \<open>int\<close> of the source, 64 bits wide: \<open>k * 10\<close> wraps around.\<close>

definition int64 :: "int \<Rightarrow> int" where
  "int64 x = (x + 2 ^ 63) mod 2 ^ 64 - 2 ^ 63"

text \<open>
  The expanding search of \<open>KNearest\<close>: the loop \<open>for searchRadius <= maxRadius\<close> with its
  three \<open>break\<close>s, carrying the radius and the result of the last search. \<open>None\<close> is a
  loop that never ends.
\<close>

partial_function (option) expandSearch ::
  "'d Node \<Rightarrow> 'd Point \<Rightarrow> int \<Rightarrow> int \<Rightarrow> real \<Rightarrow> real \<Rightarrow> 'd Point list \<Rightarrow> 'd Point list option" where
  "expandSearch rootNode target k maxPoints maxRadius searchRadius results =
     (if searchRadius \<le> maxRadius then
        (let searchBounds = \<lparr>Bounds.X = X target - searchRadius,
                             Bounds.Y = Y target - searchRadius,
                             Width = searchRadius * 2, Height = searchRadius * 2\<rparr>;
             results' = SearchTree rootNode searchBounds []
         in if int (length results') \<ge> k then Some results'
            else if searchRadius \<ge> maxRadius then Some results'
            else if int (length results') > maxPoints then Some results'
            else expandSearch rootNode target k maxPoints maxRadius (searchRadius * 2) results')
      else Some results)"

text \<open>\<open>KNearest\<close> returns before it takes the lock when \<open>k\<close> is not positive, and
  with an empty slice when the root is nil.\<close>

definition KNearest :: "'d QuadTree \<Rightarrow> 'd Point \<Rightarrow> int \<Rightarrow> 'd Point list option" where
  "KNearest qt target k =
     (if k \<le> 0 then Some []
      else (case Root qt of None \<Rightarrow> Some []
        | Some rootNode \<Rightarrow>
          (let maxPoints = (if int64 (k * 10) > 100000 then 100000 else int64 (k * 10));
               maxRadius = max (Width (Bounds rootNode)) (Height (Bounds rootNode)) * 2
           in case expandSearch rootNode target k maxPoints maxRadius 10 [] of
                None \<Rightarrow> None
              | Some results \<Rightarrow>
                  if length results = 0 then Some []
                  else
                    let pointsWithDist = map (\<lambda>p. (p, Distance target p)) results;
                        pointsWithDist = sortByDistance pointsWithDist;
                        pointsWithDist =
                          (if int (length pointsWithDist) > k then take (nat k) pointsWithDist
                           else pointsWithDist);
                        finalResults = map fst pointsWithDist
                    in Some finalResults)))"

section \<open>What a tree holds\<close>

text \<open>The points a search can reach: those of the leaves. The source never reads the
  point slice of a node that has children.\<close>

fun stored :: "'d Node \<Rightarrow> 'd Point multiset" where
  "stored (Leaf b ps cap) = mset ps"
| "stored (Split b ps cap c0 c1 c2 c3) = stored c0 + stored c1 + stored c2 + stored c3"

definition contents :: "'d QuadTree \<Rightarrow> 'd Point multiset" where
  "contents qt = (case Root qt of None \<Rightarrow> {#} | Some rootNode \<Rightarrow> stored rootNode)"

section \<open>Invariants and reachable trees\<close>

text \<open>The four quadrants that \<open>SubDivide\<close> gives to the children of a node with
  bounds \<open>b\<close>.\<close>

definition quadNW :: "Bounds \<Rightarrow> Bounds" where
  "quadNW b = \<lparr>Bounds.X = Bounds.X b, Bounds.Y = Bounds.Y b,
                Width = Width b / 2, Height = Height b / 2\<rparr>"

definition quadNE :: "Bounds \<Rightarrow> Bounds" where
  "quadNE b = \<lparr>Bounds.X = Bounds.X b + Width b / 2, Bounds.Y = Bounds.Y b,
                Width = Width b / 2, Height = Height b / 2\<rparr>"

definition quadSW :: "Bounds \<Rightarrow> Bounds" where
  "quadSW b = \<lparr>Bounds.X = Bounds.X b, Bounds.Y = Bounds.Y b + Height b / 2,
                Width = Width b / 2, Height = Height b / 2\<rparr>"

definition quadSE :: "Bounds \<Rightarrow> Bounds" where
  "quadSE b = \<lparr>Bounds.X = Bounds.X b + Width b / 2, Bounds.Y = Bounds.Y b + Height b / 2,
                Width = Width b / 2, Height = Height b / 2\<rparr>"

text \<open>
  The invariant of a tree with capacity \<open>c\<close>: every node has capacity \<open>c\<close>; a leaf
  holds at most \<open>c\<close> points (none when \<open>c\<close> is negative), all within its bounds; a node
  with children holds no point itself, its children have the four quadrants of its bounds,
  and all points below it lie within its bounds.
\<close>

fun wellformed :: "int \<Rightarrow> 'd Node \<Rightarrow> bool" where
  "wellformed c (Leaf b ps cap) \<longleftrightarrow>
     cap = c \<and> int (length ps) \<le> max 0 c \<and> (\<forall>p\<in>set ps. Contains b p)"
| "wellformed c (Split b ps cap c0 c1 c2 c3) \<longleftrightarrow>
     cap = c \<and> ps = [] \<and>
     Bounds c0 = quadNW b \<and> Bounds c1 = quadNE b \<and>
     Bounds c2 = quadSW b \<and> Bounds c3 = quadSE b \<and>
     wellformed c c0 \<and> wellformed c c1 \<and> wellformed c c2 \<and> wellformed c c3 \<and>
     (\<forall>p\<in>#stored c0 + stored c1 + stored c2 + stored c3. Contains b p)"

text \<open>The capacity part alone: every node has capacity \<open>c\<close> and no leaf holds more
  than \<open>c\<close> points.\<close>

fun withinCapacity :: "int \<Rightarrow> 'd Node \<Rightarrow> bool" where
  "withinCapacity c (Leaf b ps cap) \<longleftrightarrow> cap = c \<and> int (length ps) \<le> c"
| "withinCapacity c (Split b ps cap c0 c1 c2 c3) \<longleftrightarrow>
     cap = c \<and> withinCapacity c c0 \<and> withinCapacity c c1 \<and> withinCapacity c c2 \<and>
     withinCapacity c c3"

text \<open>
  The trees that the operations build: a tree is created with bounds \<open>b\<close>, a capacity
  \<open>cap\<close> and no point (the source has no constructor; its callers write the struct with
  a root that has bounds and a capacity only), then changed by calls of \<open>Insert\<close>,
  \<open>Remove\<close> and \<open>Update\<close> that return.
\<close>

inductive reachable :: "Bounds \<Rightarrow> int \<Rightarrow> 'd QuadTree \<Rightarrow> bool" for b :: Bounds and cap :: int where
  created: "reachable b cap \<lparr>Root = Some (Leaf b [] cap)\<rparr>"
| inserted: "reachable b cap qt \<Longrightarrow> Insert fuel qt point = Inr (res, qt') \<Longrightarrow> reachable b cap qt'"
| removed: "reachable b cap qt \<Longrightarrow> Remove qt point = Inr (res, qt') \<Longrightarrow> reachable b cap qt'"
| updated: "reachable b cap qt \<Longrightarrow> Update fuel qt oldPoint newPoint = Inr (res, qt') \<Longrightarrow>
     reachable b cap qt'"

definition rooted :: "Bounds \<Rightarrow> int \<Rightarrow> 'd QuadTree \<Rightarrow> bool" where
  "rooted b cap qt \<longleftrightarrow> (\<exists>rn. Root qt = Some rn \<and> wellformed cap rn \<and> Bounds rn = b)"

text \<open>What the proofs ask of an insertion into one node of a well-formed tree, when it
  returns: the tree stays well-formed, the point is accepted exactly when the node's bounds
  contain it, and then it is the one point added.\<close>

definition sound_ins :: "int \<Rightarrow> ('d Node \<Rightarrow> 'd Point \<Rightarrow> (bool \<times> 'd Node) option) \<Rightarrow> bool" where
  "sound_ins c ins \<longleftrightarrow>
     (\<forall>n p ok n'. wellformed c n \<longrightarrow> ins n p = Some (ok, n') \<longrightarrow>
        wellformed c n' \<and> Bounds n' = Bounds n \<and> ok = Contains (Bounds n) p \<and>
        stored n' = (if ok then add_mset p (stored n) else stored n) \<and>
        (\<not> ok \<longrightarrow> n' = n))"

text \<open>More fuel never changes a result: an insertion \<open>ins'\<close> extends \<open>ins\<close> when it
  returns what \<open>ins\<close> returns. \<open>insertStep\<close> is one call of \<open>InsertNode\<close> over the
  insertion it uses for the calls below it.\<close>

definition extends ::
  "('d Node \<Rightarrow> 'd Point \<Rightarrow> (bool \<times> 'd Node) option) \<Rightarrow>
   ('d Node \<Rightarrow> 'd Point \<Rightarrow> (bool \<times> 'd Node) option) \<Rightarrow> bool" where
  "extends ins ins' \<longleftrightarrow> (\<forall>n p r. ins n p = Some r \<longrightarrow> ins' n p = Some r)"

definition insertStep ::
  "('d Node \<Rightarrow> 'd Point \<Rightarrow> (bool \<times> 'd Node) option) \<Rightarrow> 'd Node \<Rightarrow> 'd Point \<Rightarrow>
   (bool \<times> 'd Node) option" where
  "insertStep ins n point =
     (if \<not> Contains (Bounds n) point then Some (False, n)
      else (case n of
          Split b ps cap c0 c1 c2 c3 \<Rightarrow>
            (case insertChildren ins (c0, c1, c2, c3) point of None \<Rightarrow> None
             | Some (ok, c0', c1', c2', c3') \<Rightarrow> Some (ok, Split b ps cap c0' c1' c2' c3'))
        | Leaf b ps cap \<Rightarrow>
            if int (length ps) < cap then Some (True, Leaf b (ps @ [point]) cap)
            else (case SubDivide ins n of None \<Rightarrow> None
              | Some n' \<Rightarrow>
                (case insertChildren ins (NW n', NE n', SW n', SE n') point of
                   None \<Rightarrow> None
                 | Some (ok, c0', c1', c2', c3') \<Rightarrow>
                     Some (ok, Split (Bounds n') (Points n') (Capacity n') c0' c1' c2' c3')))))"

text \<open>The inner loop of the sort read as a function on the sorted prefix: the key goes
  behind the last element that is not farther than it.\<close>

definition placeKey :: "'d PointWithDistance list \<Rightarrow> 'd PointWithDistance \<Rightarrow> 'd PointWithDistance list" where
  "placeKey pre key =
     rev (dropWhile (\<lambda>y. snd y > snd key) (rev pre)) @ key # rev (takeWhile (\<lambda>y. snd y > snd key) (rev pre))"

text \<open>The square that \<open>KNearest\<close> searches at a radius, and the candidates ranked by
  distance: what \<open>KNearest\<close> cuts to \<open>k\<close> entries.\<close>

definition squareAround :: "'d Point \<Rightarrow> real \<Rightarrow> Bounds" where
  "squareAround target searchRadius =
     \<lparr>Bounds.X = X target - searchRadius, Bounds.Y = Y target - searchRadius,
      Width = searchRadius * 2, Height = searchRadius * 2\<rparr>"

definition ranked :: "'d Point \<Rightarrow> 'd Point list \<Rightarrow> 'd Point list" where
  "ranked target found = map fst (sortByDistance (map (\<lambda>p. (p, Distance target p)) found))"

section \<open>Example trees\<close>

definition exBounds :: Bounds where
  "exBounds = \<lparr>Bounds.X = 0, Bounds.Y = 0, Width = 100, Height = 100\<rparr>"

definition exA :: "string Point" where "exA = \<lparr>X = 10, Y = 10, Data = ''a''\<rparr>"
definition exB :: "string Point" where "exB = \<lparr>X = 10, Y = 10, Data = ''b''\<rparr>"
definition exC :: "string Point" where "exC = \<lparr>X = 60, Y = 60, Data = ''c''\<rparr>"

definition exLeafTree :: "string QuadTree" where
  "exLeafTree = \<lparr>Root = Some (Leaf exBounds [exA, exB] 4)\<rparr>"

definition exSplitTree :: "string QuadTree" where
  "exSplitTree = \<lparr>Root = Some (Split exBounds [] 1
      (Leaf \<lparr>Bounds.X = 0, Bounds.Y = 0, Width = 50, Height = 50\<rparr> [exA] 1)
      (Leaf \<lparr>Bounds.X = 50, Bounds.Y = 0, Width = 50, Height = 50\<rparr> [] 1)
      (Leaf \<lparr>Bounds.X = 0, Bounds.Y = 50, Width = 50, Height = 50\<rparr> [] 1)
      (Leaf \<lparr>Bounds.X = 50, Bounds.Y = 50, Width = 50, Height = 50\<rparr> [exC] 1))\<rparr>"

definition exO :: "string Point" where "exO = \<lparr>X = 0, Y = 0, Data = ''a''\<rparr>"
definition exO2 :: "string Point" where "exO2 = \<lparr>X = 0, Y = 0, Data = ''b''\<rparr>"
definition exFar :: "string Point" where "exFar = \<lparr>X = 1000, Y = 1000, Data = ''t''\<rparr>"

definition exFullTree :: "string QuadTree" where
  "exFullTree = \<lparr>Root = Some (Leaf exBounds [exO] 1)\<rparr>"

definition exMoveTree :: "string QuadTree" where
  "exMoveTree = \<lparr>Root = Some (Split exBounds [] 1
      (Leaf \<lparr>Bounds.X = 0, Bounds.Y = 0, Width = 50, Height = 50\<rparr> [exO] 1)
      (Leaf \<lparr>Bounds.X = 50, Bounds.Y = 0, Width = 50, Height = 50\<rparr> [] 1)
      (Leaf \<lparr>Bounds.X = 0, Bounds.Y = 50, Width = 50, Height = 50\<rparr> [] 1)
      (Leaf \<lparr>Bounds.X = 50, Bounds.Y = 50, Width = 50, Height = 50\<rparr> [exC] 1))\<rparr>"

lemmas ex_defs = exBounds_def exA_def exB_def exC_def exO_def exO2_def exFar_def

section \<open>Removal and search\<close>

lemma firstMatch_None:
  "firstMatch ps p = None \<longleftrightarrow> (\<forall>q\<in>set ps. \<not> (X q = X p \<and> Y q = Y p))"
  by (induction ps) auto

lemma firstMatch_Some:
  "firstMatch ps p = Some i \<Longrightarrow> i < length ps \<and> X (ps ! i) = X p \<and> Y (ps ! i) = Y p"
  by (induction ps arbitrary: i) (auto split: if_splits)

lemma mset_swap_remove:
  assumes "i < length ps"
  shows "add_mset (ps ! i) (mset (butlast (ps[i := last ps]))) = mset ps"
proof (cases ps rule: rev_cases)
  case Nil
  with assms show ?thesis by simp
next
  case (snoc xs l)
  show ?thesis
  proof (cases "i = length xs")
    case True
    with snoc show ?thesis by simp
  next
    case False
    with assms snoc have "i < length xs" by simp
    then show ?thesis using snoc
      by (simp add: list_update_append nth_append mset_update)
  qed
qed

lemma stored_within: "wellformed c n \<Longrightarrow> p \<in># stored n \<Longrightarrow> Contains (Bounds n) p"
  by (cases n) auto

lemma RemoveNode_False: "RemoveNode n p = (False, n') \<Longrightarrow> n' = n"
  by (induction n arbitrary: n')
     (auto split: if_splits option.splits prod.splits simp: Let_def)

lemma RemoveNode_Bounds: "Bounds (snd (RemoveNode n p)) = Bounds n"
  by (cases n) (auto split: if_splits option.splits prod.splits simp: Let_def)

lemma RemoveNode_no_match:
  "\<forall>q\<in>#stored n. \<not> (X q = X p \<and> Y q = Y p) \<Longrightarrow> fst (RemoveNode n p) = False"
  by (induction n)
     (auto split: if_splits option.splits prod.splits simp: Let_def firstMatch_None dest: firstMatch_Some)

lemma RemoveNode_True:
  "RemoveNode n p = (True, n') \<Longrightarrow>
   \<exists>q. X q = X p \<and> Y q = Y p \<and> stored n = add_mset q (stored n')"
proof (induction n arbitrary: n')
  case (Leaf b ps cap)
  then obtain i where i: "firstMatch ps p = Some i" and n': "n' = Leaf b (butlast (ps[i := last ps])) cap"
    by (auto split: if_splits option.splits)
  from firstMatch_Some[OF i] mset_swap_remove[of i ps] n' show ?case
    by (intro exI[of _ "ps ! i"]) simp
next
  case (Split b ps cap c0 c1 c2 c3)
  then show ?case
    by (auto split: if_splits prod.splits simp: Let_def dest!: RemoveNode_False)
qed


lemma Contains_coords: "Contains b q \<Longrightarrow> X q = X p \<Longrightarrow> Y q = Y p \<Longrightarrow> Contains b p"
  by (simp add: Contains_def)

lemma Contains_Intersects: "Contains b p \<Longrightarrow> Contains area p \<Longrightarrow> Intersects b area"
  by (simp add: Contains_def Intersects_def)

lemma RemoveNode_noop: "\<not> fst (RemoveNode n p) \<Longrightarrow> RemoveNode n p = (False, n)"
  using RemoveNode_False[of n p "snd (RemoveNode n p)"] by (cases "RemoveNode n p") auto

lemma RemoveNode_finds:
  "wellformed c n \<Longrightarrow> q \<in># stored n \<Longrightarrow> X q = X p \<Longrightarrow> Y q = Y p \<Longrightarrow> fst (RemoveNode n p)"
proof (induction n)
  case (Leaf b ps cap)
  then have "Contains b p" using Contains_coords[of b q p] by auto
  moreover from Leaf have "firstMatch ps p \<noteq> None" by (auto simp: firstMatch_None)
  ultimately show ?case by (auto split: option.splits)
next
  case (Split b ps cap c0 c1 c2 c3)
  then have "Contains b q" by auto
  with Split.prems have cb: "Contains b p" using Contains_coords[of b q p] by simp
  from Split.prems consider "q \<in># stored c0" | "q \<in># stored c1" | "q \<in># stored c2" | "q \<in># stored c3"
    by auto
  then show ?case
  proof cases
    case 1
    with Split have "fst (RemoveNode c0 p)" by simp
    with cb show ?thesis by (auto split: prod.splits simp: Let_def)
  next
    case 2
    with Split have "fst (RemoveNode c1 p)" by simp
    with cb show ?thesis by (auto split: prod.splits simp: Let_def)
  next
    case 3
    with Split have "fst (RemoveNode c2 p)" by simp
    with cb show ?thesis by (auto split: prod.splits simp: Let_def)
  next
    case 4
    with Split have "fst (RemoveNode c3 p)" by simp
    with cb show ?thesis by (auto split: prod.splits simp: Let_def)
  qed
qed

lemma butlast_update_subset: "set (butlast (ps[i := last ps])) \<subseteq> set ps"
proof (cases "ps = []")
  case True
  then show ?thesis by simp
next
  case False
  have "set (butlast (ps[i := last ps])) \<subseteq> set (ps[i := last ps])"
    by (auto dest: in_set_butlastD)
  also have "\<dots> \<subseteq> insert (last ps) (set ps)" by (rule set_update_subset_insert)
  also have "\<dots> = set ps" using False by auto
  finally show ?thesis .
qed

lemma RemoveNode_stored_subset: "stored (snd (RemoveNode n p)) \<subseteq># stored n"
proof (cases "RemoveNode n p")
  case (Pair ok n')
  then show ?thesis
    using RemoveNode_True[of n p n'] RemoveNode_False[of n p n'] by (cases ok) auto
qed

lemma RemoveNode_Split_shape:
  "\<exists>c0' c1' c2' c3'.
     snd (RemoveNode (Split b ps cap c0 c1 c2 c3) p) = Split b ps cap c0' c1' c2' c3' \<and>
     (c0' = c0 \<or> c0' = snd (RemoveNode c0 p)) \<and> (c1' = c1 \<or> c1' = snd (RemoveNode c1 p)) \<and>
     (c2' = c2 \<or> c2' = snd (RemoveNode c2 p)) \<and> (c3' = c3 \<or> c3' = snd (RemoveNode c3 p))"
  by (simp add: Let_def split: prod.splits)

lemma RemoveNode_wellformed:
  "wellformed c n \<Longrightarrow> wellformed c (snd (RemoveNode n p))"
proof (induction n)
  case (Leaf b ps cap)
  then show ?case using butlast_update_subset[of ps]
    by (auto split: option.splits)
next
  case (Split b ps cap c0 c1 c2 c3)
  have ch: "wellformed c m' \<and> Bounds m' = Bounds m \<and> set_mset (stored m') \<subseteq> set_mset (stored m)"
    if "wellformed c m" "wellformed c (snd (RemoveNode m p))" "m' = m \<or> m' = snd (RemoveNode m p)"
    for m m' :: "'a Node"
    using that RemoveNode_Bounds[of m p] set_mset_mono[OF RemoveNode_stored_subset[of m p]]
    by auto
  obtain c0' c1' c2' c3' where
    eq: "snd (RemoveNode (Split b ps cap c0 c1 c2 c3) p) = Split b ps cap c0' c1' c2' c3'" and
    c0: "c0' = c0 \<or> c0' = snd (RemoveNode c0 p)" and c1: "c1' = c1 \<or> c1' = snd (RemoveNode c1 p)" and
    c2: "c2' = c2 \<or> c2' = snd (RemoveNode c2 p)" and c3: "c3' = c3 \<or> c3' = snd (RemoveNode c3 p)"
    using RemoveNode_Split_shape[of b ps cap c0 c1 c2 c3 p] by blast
  from Split have w: "wellformed c c0" "wellformed c c1" "wellformed c c2" "wellformed c c3"
    by simp_all
  note h0 = ch[OF w(1) Split.IH(1)[OF w(1)] c0]
  note h1 = ch[OF w(2) Split.IH(2)[OF w(2)] c1]
  note h2 = ch[OF w(3) Split.IH(3)[OF w(3)] c2]
  note h3 = ch[OF w(4) Split.IH(4)[OF w(4)] c3]
  have "wellformed c (Split b ps cap c0' c1' c2' c3')"
    using Split.prems h0 h1 h2 h3 by (simp add: subset_iff ball_Un)
  then show ?case by (simp only: eq)
qed

lemma SearchTree_mset:
  "wellformed c n \<Longrightarrow>
   mset (SearchTree n area rs) = mset rs + filter_mset (Contains area) (stored n)"
proof (induction n arbitrary: rs)
  case (Leaf b ps cap)
  have "\<not> Intersects b area \<Longrightarrow> filter_mset (Contains area) (mset ps) = {#}"
    using Leaf Contains_Intersects[of b _ area] by (auto)
  then show ?case by (cases "Intersects b area") simp_all
next
  case (Split b ps cap c0 c1 c2 c3)
  show ?case
  proof (cases "Intersects b area")
    case True
    with Split show ?thesis by simp
  next
    case False
    have "\<forall>p\<in>#stored c0 + stored c1 + stored c2 + stored c3. \<not> Contains area p"
      using Split.prems False Contains_Intersects[of b _ area] by auto
    then have "filter_mset (Contains area) (stored c0 + stored c1 + stored c2 + stored c3) = {#}"
      by (auto)
    with False show ?thesis by simp
  qed
qed

section \<open>Insertion\<close>

lemma sound_insD:
  assumes "sound_ins c ins" "wellformed c n" "ins n p = Some (ok, n')"
  shows "wellformed c n'" "Bounds n' = Bounds n" "ok = Contains (Bounds n) p"
    "stored n' = (if ok then add_mset p (stored n) else stored n)" "\<not> ok \<Longrightarrow> n' = n"
  using assms unfolding sound_ins_def by blast+

lemma insertChildren_sound:
  assumes s: "sound_ins c ins"
    and w: "wellformed c c0" "wellformed c c1" "wellformed c c2" "wellformed c c3"
    and r: "insertChildren ins (c0, c1, c2, c3) p = Some (ok, c0', c1', c2', c3')"
  shows "wellformed c c0' \<and> wellformed c c1' \<and> wellformed c c2' \<and> wellformed c c3' \<and>
     Bounds c0' = Bounds c0 \<and> Bounds c1' = Bounds c1 \<and> Bounds c2' = Bounds c2 \<and>
     Bounds c3' = Bounds c3 \<and>
     ok = (Contains (Bounds c0) p \<or> Contains (Bounds c1) p \<or> Contains (Bounds c2) p \<or>
           Contains (Bounds c3) p) \<and>
     stored c0' + stored c1' + stored c2' + stored c3' =
       (if ok then add_mset p (stored c0 + stored c1 + stored c2 + stored c3)
        else stored c0 + stored c1 + stored c2 + stored c3) \<and>
     (\<not> ok \<longrightarrow> c0' = c0 \<and> c1' = c1 \<and> c2' = c2 \<and> c3' = c3)"
proof -
  from r obtain ok0 d0 where i0: "ins c0 p = Some (ok0, d0)"
    by (auto simp: insertChildren_def split: option.splits)
  note f0 = sound_insD[OF s w(1) i0]
  show ?thesis
  proof (cases ok0)
    case True
    with r i0 f0 w show ?thesis by (auto simp: insertChildren_def)
  next
    case n0: False
    with r i0 obtain ok1 d1 where i1: "ins c1 p = Some (ok1, d1)"
      by (auto simp: insertChildren_def split: option.splits)
    note f1 = sound_insD[OF s w(2) i1]
    show ?thesis
    proof (cases ok1)
      case True
      with r i0 i1 n0 f0 f1 w show ?thesis by (auto simp: insertChildren_def)
    next
      case n1: False
      with r i0 i1 n0 obtain ok2 d2 where i2: "ins c2 p = Some (ok2, d2)"
        by (auto simp: insertChildren_def split: option.splits)
      note f2 = sound_insD[OF s w(3) i2]
      show ?thesis
      proof (cases ok2)
        case True
        with r i0 i1 i2 n0 n1 f0 f1 f2 w show ?thesis by (auto simp: insertChildren_def)
      next
        case n2: False
        with r i0 i1 i2 n0 n1 obtain ok3 d3 where i3: "ins c3 p = Some (ok3, d3)"
          by (auto simp: insertChildren_def split: option.splits)
        note f3 = sound_insD[OF s w(4) i3]
        from r i0 i1 i2 i3 n0 n1 n2 f0 f1 f2 f3 w show ?thesis
          by (cases ok3) (auto simp: insertChildren_def)
      qed
    qed
  qed
qed


lemma quadrants_cover:
  assumes "Contains b p"
  shows "Contains (quadNW b) p \<or> Contains (quadNE b) p \<or> Contains (quadSW b) p \<or>
         Contains (quadSE b) p"
  using assms unfolding Contains_def quadNW_def quadNE_def quadSW_def quadSE_def
  by (simp add: field_simps) argo

lemma reinsert_sound:
  assumes s: "sound_ins c ins"
  shows "wellformed c c0 \<Longrightarrow> wellformed c c1 \<Longrightarrow> wellformed c c2 \<Longrightarrow> wellformed c c3 \<Longrightarrow>
     reinsert ins ps (c0, c1, c2, c3) = Some (d0, d1, d2, d3) \<Longrightarrow>
     \<forall>p\<in>set ps. Contains (Bounds c0) p \<or> Contains (Bounds c1) p \<or> Contains (Bounds c2) p \<or>
           Contains (Bounds c3) p \<Longrightarrow>
     wellformed c d0 \<and> wellformed c d1 \<and> wellformed c d2 \<and> wellformed c d3 \<and>
     Bounds d0 = Bounds c0 \<and> Bounds d1 = Bounds c1 \<and> Bounds d2 = Bounds c2 \<and>
     Bounds d3 = Bounds c3 \<and>
     stored d0 + stored d1 + stored d2 + stored d3 =
       stored c0 + stored c1 + stored c2 + stored c3 + mset ps"
proof (induction ps arbitrary: c0 c1 c2 c3)
  case Nil
  then show ?case by simp
next
  case (Cons p ps)
  from Cons.prems(5) obtain ok e0 e1 e2 e3 where
    i: "insertChildren ins (c0, c1, c2, c3) p = Some (ok, e0, e1, e2, e3)" and
    r: "reinsert ins ps (e0, e1, e2, e3) = Some (d0, d1, d2, d3)"
    by (auto split: option.splits)
  note f = insertChildren_sound[OF s Cons.prems(1-4) i]
  from f Cons.prems(6) have ok by simp
  have cov: "\<forall>p\<in>set ps. Contains (Bounds e0) p \<or> Contains (Bounds e1) p \<or>
      Contains (Bounds e2) p \<or> Contains (Bounds e3) p"
    using f Cons.prems(6) by simp
  from f have w: "wellformed c e0" "wellformed c e1" "wellformed c e2" "wellformed c e3"
    by simp_all
  note g = Cons.IH[OF w r cov]
  from f g \<open>ok\<close> show ?case by simp
qed

lemma SubDivide_sound:
  assumes s: "sound_ins c ins"
    and w: "wellformed c (Leaf b ps cap)"
    and r: "SubDivide ins (Leaf b ps cap) = Some n'"
  shows "\<exists>d0 d1 d2 d3. n' = Split b [] cap d0 d1 d2 d3 \<and> wellformed c n' \<and> stored n' = mset ps"
proof -
  let ?c0 = "Leaf (quadNW b) [] cap :: 'a Node"
  let ?c1 = "Leaf (quadNE b) [] cap :: 'a Node"
  let ?c2 = "Leaf (quadSW b) [] cap :: 'a Node"
  let ?c3 = "Leaf (quadSE b) [] cap :: 'a Node"
  from r obtain d0 d1 d2 d3 where
    re: "reinsert ins ps (?c0, ?c1, ?c2, ?c3) = Some (d0, d1, d2, d3)" and
    n': "n' = Split b [] cap d0 d1 d2 d3"
    by (auto simp: SubDivide_def Let_def quadNW_def quadNE_def quadSW_def quadSE_def
        split: option.splits)
  from w have cap: "cap = c" and inb: "\<forall>p\<in>set ps. Contains b p" by simp_all
  have w0: "wellformed c ?c0" "wellformed c ?c1" "wellformed c ?c2" "wellformed c ?c3"
    using cap by simp_all
  have cov: "\<forall>p\<in>set ps. Contains (Bounds ?c0) p \<or> Contains (Bounds ?c1) p \<or>
      Contains (Bounds ?c2) p \<or> Contains (Bounds ?c3) p"
    using inb quadrants_cover[of b] by auto
  note g = reinsert_sound[OF s w0 re cov]
  have "\<forall>p\<in>#stored d0 + stored d1 + stored d2 + stored d3. Contains b p"
    using g inb by simp
  then have "wellformed c n'" using g n' cap by simp
  moreover have "stored n' = mset ps" using g n' by simp
  ultimately show ?thesis using n' by blast
qed

lemma InsertNode_sound: "sound_ins c (InsertNode fuel)"
proof (induction fuel)
  case 0
  show ?case by (simp add: sound_ins_def)
next
  case (Suc fuel)
  show ?case
    unfolding sound_ins_def
  proof (intro allI impI)
    fix n :: "'a Node" and p ok n'
    assume w: "wellformed c n" and r: "InsertNode (Suc fuel) n p = Some (ok, n')"
    let ?goal = "wellformed c n' \<and> Bounds n' = Bounds n \<and> ok = Contains (Bounds n) p \<and>
        stored n' = (if ok then add_mset p (stored n) else stored n) \<and> (\<not> ok \<longrightarrow> n' = n)"
    show ?goal
    proof (cases "Contains (Bounds n) p")
      case False
      with r w show ?thesis by simp
    next
      case cb: True
      show ?thesis
      proof (cases n)
        case (Leaf b ps cap)
        show ?thesis
        proof (cases "int (length ps) < cap")
          case True
          with r w cb Leaf show ?thesis by auto
        next
          case False
          with r cb Leaf obtain m where sd: "SubDivide (InsertNode fuel) (Leaf b ps cap) = Some m"
            by (auto split: option.splits)
          from SubDivide_sound[OF Suc w[unfolded Leaf] sd] obtain d0 d1 d2 d3 where
            m: "m = Split b [] cap d0 d1 d2 d3" and wm: "wellformed c m" and sm: "stored m = mset ps"
            by blast
          from r cb Leaf False sd m obtain e0 e1 e2 e3 where
            i: "insertChildren (InsertNode fuel) (d0, d1, d2, d3) p = Some (ok, e0, e1, e2, e3)" and
            n': "n' = Split b [] cap e0 e1 e2 e3"
            by (auto split: option.splits)
          from wm m have wd: "wellformed c d0" "wellformed c d1" "wellformed c d2" "wellformed c d3"
            by simp_all
          note f = insertChildren_sound[OF Suc wd i]
          from wm m have bd: "Bounds d0 = quadNW b" "Bounds d1 = quadNE b"
            "Bounds d2 = quadSW b" "Bounds d3 = quadSE b" by simp_all
          have ok using f bd cb Leaf quadrants_cover[of b p] by simp
          have inb: "\<forall>q\<in>#stored e0 + stored e1 + stored e2 + stored e3. Contains b q"
            using f \<open>ok\<close> wm m cb Leaf by auto
          have capc: "cap = c" using w Leaf by simp
          have wn: "wellformed c n'" unfolding n' using f bd inb capc by simp
          have sn: "stored n' = add_mset p (stored n)"
            using f \<open>ok\<close> sm m unfolding n' Leaf by simp
          have bn: "Bounds n' = Bounds n" unfolding n' Leaf by simp
          show ?thesis using wn sn bn \<open>ok\<close> cb by simp
        qed
      next
        case (Split b ps cap c0 c1 c2 c3)
        with r cb obtain e0 e1 e2 e3 where
          i: "insertChildren (InsertNode fuel) (c0, c1, c2, c3) p = Some (ok, e0, e1, e2, e3)" and
          n': "n' = Split b ps cap e0 e1 e2 e3"
          by (auto split: option.splits)
        from w Split have wd: "wellformed c c0" "wellformed c c1" "wellformed c c2" "wellformed c c3"
          by simp_all
        note f = insertChildren_sound[OF Suc wd i]
        from w Split have bd: "Bounds c0 = quadNW b" "Bounds c1 = quadNE b"
          "Bounds c2 = quadSW b" "Bounds c3 = quadSE b" by simp_all
        have ok using f bd cb Split quadrants_cover[of b p] by simp
        have inb: "\<forall>q\<in>#stored e0 + stored e1 + stored e2 + stored e3. Contains b q"
          using f \<open>ok\<close> w Split cb by auto
        have capc: "cap = c" "ps = []" using w Split by simp_all
        have wn: "wellformed c n'" unfolding n' using f bd inb capc by simp
        have sn: "stored n' = add_mset p (stored n)"
          using f \<open>ok\<close> unfolding n' Split by simp
        have bn: "Bounds n' = Bounds n" unfolding n' Split by simp
        show ?thesis using wn sn bn \<open>ok\<close> cb by simp
      qed
    qed
  qed
qed

lemma coincident_diverges:
  "X p = Bounds.X b \<Longrightarrow> Y p = Bounds.Y b \<Longrightarrow> X q = Bounds.X b \<Longrightarrow> Y q = Bounds.Y b \<Longrightarrow>
   0 \<le> Width b \<Longrightarrow> 0 \<le> Height b \<Longrightarrow> InsertNode fuel (Leaf b [p] 1) q = None"
proof (induction fuel arbitrary: b)
  case 0
  show ?case by simp
next
  case (Suc fuel)
  let ?nw = "\<lparr>Bounds.X = Bounds.X b, Bounds.Y = Bounds.Y b,
               Width = Width b / 2, Height = Height b / 2\<rparr>"
  have cq: "Contains b q" using Suc.prems by (simp add: Contains_def)
  show ?case
  proof (cases fuel)
    case 0
    then show ?thesis using cq by (simp add: SubDivide_def insertChildren_def Let_def)
  next
    case (Suc f)
    have cp: "Contains ?nw p" using Suc.prems by (simp add: Contains_def)
    have ins: "InsertNode fuel (Leaf ?nw [] 1) p = Some (True, Leaf ?nw [p] 1)"
      using cp Suc by simp
    have "InsertNode fuel (Leaf ?nw [p] 1) q = None"
      using Suc.prems by (intro Suc.IH) simp_all
    with ins cq show ?thesis
      by (simp add: SubDivide_def insertChildren_def Let_def)
  qed
qed

lemma insertChildren_extends:
  "extends ins ins' \<Longrightarrow> insertChildren ins cs p = Some r \<Longrightarrow> insertChildren ins' cs p = Some r"
  unfolding extends_def insertChildren_def
  by (auto split: prod.splits option.splits if_splits)

lemma reinsert_extends:
  "extends ins ins' \<Longrightarrow> reinsert ins ps cs = Some r \<Longrightarrow> reinsert ins' ps cs = Some r"
proof (induction ps arbitrary: cs)
  case Nil
  then show ?case by simp
next
  case (Cons p ps)
  from Cons.prems(2) obtain ok cs' where
    i: "insertChildren ins cs p = Some (ok, cs')" and r: "reinsert ins ps cs' = Some r"
    by (auto split: option.splits)
  from insertChildren_extends[OF Cons.prems(1) i] Cons.IH[OF Cons.prems(1) r]
  show ?case by simp
qed

lemma SubDivide_extends:
  "extends ins ins' \<Longrightarrow> SubDivide ins n = Some r \<Longrightarrow> SubDivide ins' n = Some r"
  unfolding SubDivide_def Let_def
  by (auto split: option.splits dest: reinsert_extends)

lemma InsertNode_Suc: "InsertNode (Suc fuel) n p = insertStep (InsertNode fuel) n p"
  by (simp add: insertStep_def)

lemma insertStep_extends:
  assumes e: "extends ins ins'" and a: "insertStep ins n p = Some r"
  shows "insertStep ins' n p = Some r"
proof (cases "Contains (Bounds n) p")
  case False
  with a show ?thesis by (simp add: insertStep_def)
next
  case cb: True
  show ?thesis
  proof (cases n)
    case (Leaf b ps cap)
    show ?thesis
    proof (cases "int (length ps) < cap")
      case True
      with a cb Leaf show ?thesis by (simp add: insertStep_def)
    next
      case False
      with a cb Leaf obtain m where sd: "SubDivide ins n = Some m"
        by (auto simp: insertStep_def split: option.splits)
      with a cb Leaf False obtain r' where
        ic: "insertChildren ins (NW m, NE m, SW m, SE m) p = Some r'"
        by (auto simp: insertStep_def split: option.splits)
      from SubDivide_extends[OF e sd] insertChildren_extends[OF e ic] a cb Leaf False sd ic
      show ?thesis by (simp add: insertStep_def)
    qed
  next
    case (Split b ps cap c0 c1 c2 c3)
    with a cb obtain r' where ic: "insertChildren ins (c0, c1, c2, c3) p = Some r'"
      by (auto simp: insertStep_def split: option.splits)
    from insertChildren_extends[OF e ic] a cb Split ic show ?thesis
      by (simp add: insertStep_def)
  qed
qed

lemma InsertNode_more_fuel: "extends (InsertNode fuel) (InsertNode (Suc fuel))"
proof (induction fuel)
  case 0
  show ?case by (simp add: extends_def)
next
  case (Suc fuel)
  show ?case
    unfolding extends_def
  proof (intro allI impI)
    fix n :: "'a Node" and p r
    assume "InsertNode (Suc fuel) n p = Some r"
    then have "insertStep (InsertNode fuel) n p = Some r"
      by (rule trans[OF InsertNode_Suc[symmetric]])
    from insertStep_extends[OF Suc this] show "InsertNode (Suc (Suc fuel)) n p = Some r"
      by (rule trans[OF InsertNode_Suc])
  qed
qed

lemma InsertNode_fuel_mono:
  "InsertNode fuel n p = Some r \<Longrightarrow> fuel \<le> fuel' \<Longrightarrow> InsertNode fuel' n p = Some r"
proof (induction fuel' )
  case 0
  then show ?case by simp
next
  case (Suc fuel')
  show ?case
  proof (cases "fuel = Suc fuel'")
    case True
    with Suc.prems show ?thesis by simp
  next
    case False
    with Suc have "InsertNode fuel' n p = Some r" by simp
    with InsertNode_more_fuel[of fuel'] show ?thesis unfolding extends_def by blast
  qed
qed

section \<open>Operations on reachable trees\<close>

lemma Insert_rooted:
  assumes "rooted b cap qt" "Insert fuel qt p = Inr (res, qt')"
  shows "rooted b cap qt' \<and> res = Contains b p \<and>
     contents qt' = (if res then add_mset p (contents qt) else contents qt) \<and>
     (\<not> res \<longrightarrow> qt' = qt)"
proof -
  from assms(1) obtain rn where rn: "Root qt = Some rn" "wellformed cap rn" "Bounds rn = b"
    by (auto simp: rooted_def)
  with assms(2) obtain rn' where i: "InsertNode fuel rn p = Some (res, rn')"
    and q: "qt' = qt\<lparr>Root := Some rn'\<rparr>"
    by (auto simp: Insert_def split: option.splits)
  note f = sound_insD[OF InsertNode_sound rn(2) i]
  from f(5) rn(1) q have "\<not> res \<Longrightarrow> qt' = qt" by simp
  with f rn q show ?thesis by (auto simp: rooted_def contents_def)
qed

lemma Remove_rooted:
  assumes "rooted b cap qt" "Remove qt p = Inr (res, qt')"
  shows "rooted b cap qt'"
proof -
  from assms(1) obtain rn where rn: "Root qt = Some rn" "wellformed cap rn" "Bounds rn = b"
    by (auto simp: rooted_def)
  with assms(2) have q: "qt' = qt\<lparr>Root := Some (snd (RemoveNode rn p))\<rparr>"
    by (auto simp: Remove_def split: prod.splits)
  show ?thesis using rn RemoveNode_wellformed[OF rn(2), of p] RemoveNode_Bounds[of rn p]
    unfolding q rooted_def by simp
qed

lemma Remove_effect:
  assumes "Remove qt p = Inr (res, qt')"
  shows "(res \<longrightarrow> (\<exists>q. X q = X p \<and> Y q = Y p \<and> contents qt = add_mset q (contents qt'))) \<and>
     (\<not> res \<longrightarrow> qt' = qt)"
proof -
  from assms obtain rn rn' where rn: "Root qt = Some rn" and r: "RemoveNode rn p = (res, rn')"
    and q: "qt' = qt\<lparr>Root := Some rn'\<rparr>"
    by (auto simp: Remove_def split: option.splits prod.splits)
  show ?thesis
  proof (cases res)
    case True
    with r RemoveNode_True[of rn p rn'] rn q show ?thesis by (auto simp: contents_def)
  next
    case False
    with r RemoveNode_False[of rn p rn'] rn q show ?thesis by auto
  qed
qed

lemma Update_rooted:
  assumes ro: "rooted b cap qt" and u: "Update fuel qt old new = Inr (res, qt')"
  shows "rooted b cap qt' \<and>
     (res \<longrightarrow> (\<exists>q M. X q = X old \<and> Y q = Y old \<and>
        contents qt = add_mset q M \<and> contents qt' = add_mset new M)) \<and>
     (\<not> res \<longrightarrow> qt' = qt)"
proof -
  from ro obtain rn where rn: "Root qt = Some rn" "wellformed cap rn" "Bounds rn = b"
    by (auto simp: rooted_def)
  show ?thesis
  proof (cases "Contains (Bounds rn) new")
    case False
    with u rn ro show ?thesis by (simp add: Update_def)
  next
    case cb: True
    obtain removed r1 where rm: "RemoveNode rn old = (removed, r1)" by (cases "RemoveNode rn old")
    show ?thesis
    proof (cases removed)
      case False
      with rm RemoveNode_False[of rn old r1] have "r1 = rn" by simp
      with u rn cb rm False have "\<not> res" "qt' = qt\<lparr>Root := Some rn\<rparr>"
        by (auto simp: Update_def)
      moreover have "qt\<lparr>Root := Some rn\<rparr> = qt" using rn by simp
      ultimately show ?thesis using ro by simp
    next
      case True
      have w1: "wellformed cap r1" using RemoveNode_wellformed[OF rn(2), of old] rm by simp
      have b1: "Bounds r1 = Bounds rn" using RemoveNode_Bounds[of rn old] rm by simp
      from RemoveNode_True[of rn old r1] rm True obtain q where
        q: "X q = X old" "Y q = Y old" "stored rn = add_mset q (stored r1)" by auto
      from u rn cb rm True obtain inserted r2 where
        i: "InsertNode fuel r1 new = Some (inserted, r2)"
        by (auto simp: Update_def split: option.splits)
      note f = sound_insD[OF InsertNode_sound w1 i]
      from f(3) b1 cb have ins: inserted by simp
      with u rn cb rm True i have qt': "qt' = qt\<lparr>Root := Some r2\<rparr>" and res: res
        by (auto simp: Update_def)
      have "rooted b cap qt'" using f b1 rn unfolding qt' rooted_def by simp
      moreover have "contents qt = add_mset q (stored r1)"
        using q(3) rn unfolding contents_def by simp
      moreover have "contents qt' = add_mset new (stored r1)"
        using f(4) ins unfolding qt' contents_def by simp
      ultimately show ?thesis using res q(1,2) by blast
    qed
  qed
qed

lemma reachable_rooted: "reachable b cap qt \<Longrightarrow> rooted b cap qt"
proof (induction rule: reachable.induct)
  case created
  show ?case by (simp add: rooted_def)
next
  case (inserted qt fuel point res qt')
  then show ?case using Insert_rooted by blast
next
  case (removed qt point res qt')
  then show ?case using Remove_rooted by blast
next
  case (updated qt fuel oldPoint newPoint res qt')
  then show ?case using Update_rooted by blast
qed

lemma wellformed_withinCapacity: "wellformed c n \<Longrightarrow> 0 \<le> c \<Longrightarrow> withinCapacity c n"
  by (induction n) auto

lemma filter_nonempty_obtains:
  assumes "1 \<le> size (filter_mset P M)"
  obtains x where "x \<in># M" "P x"
proof -
  have "filter_mset P M \<noteq> {#}"
  proof
    assume "filter_mset P M = {#}"
    then have "size (filter_mset P M) = 0" by (simp only: size_empty)
    with assms show False by simp
  qed
  then obtain x where "x \<in># filter_mset P M" by (rule multiset_nonemptyE)
  then have "x \<in># M" "P x" by simp_all
  then show thesis by (rule that)
qed

lemma exLeafTree_reachable: "reachable exBounds 4 exLeafTree"
proof -
  have 0: "reachable exBounds 4 \<lparr>Root = Some (Leaf exBounds [] 4)\<rparr>" by (rule created)
  have "Insert (Suc 0) \<lparr>Root = Some (Leaf exBounds [] 4)\<rparr> exA =
          Inr (True, \<lparr>Root = Some (Leaf exBounds [exA] 4)\<rparr>)"
    by (simp add: Insert_def Contains_def ex_defs)
  from inserted[OF 0 this] have 1: "reachable exBounds 4 \<lparr>Root = Some (Leaf exBounds [exA] 4)\<rparr>" .
  have "Insert (Suc 0) \<lparr>Root = Some (Leaf exBounds [exA] 4)\<rparr> exB = Inr (True, exLeafTree)"
    by (simp add: Insert_def Contains_def ex_defs exLeafTree_def)
  from inserted[OF 1 this] show ?thesis .
qed

lemma exSplitTree_reachable: "reachable exBounds 1 exSplitTree"
proof -
  have 0: "reachable exBounds 1 \<lparr>Root = Some (Leaf exBounds [] 1)\<rparr>" by (rule created)
  have "Insert (Suc 0) \<lparr>Root = Some (Leaf exBounds [] 1)\<rparr> exA =
          Inr (True, \<lparr>Root = Some (Leaf exBounds [exA] 1)\<rparr>)"
    by (simp add: Insert_def Contains_def ex_defs)
  from inserted[OF 0 this] have 1: "reachable exBounds 1 \<lparr>Root = Some (Leaf exBounds [exA] 1)\<rparr>" .
  have "Insert (Suc (Suc 0)) \<lparr>Root = Some (Leaf exBounds [exA] 1)\<rparr> exC = Inr (True, exSplitTree)"
    by (simp add: Insert_def Contains_def SubDivide_def insertChildren_def Let_def ex_defs exSplitTree_def)
  from inserted[OF 1 this] show ?thesis .
qed

lemma exFullTree_reachable: "reachable exBounds 1 exFullTree"
proof -
  have 0: "reachable exBounds 1 \<lparr>Root = Some (Leaf exBounds [] 1)\<rparr>" by (rule created)
  have "Insert (Suc 0) \<lparr>Root = Some (Leaf exBounds [] 1)\<rparr> exO = Inr (True, exFullTree)"
    by (simp add: Insert_def Contains_def exBounds_def exO_def exFullTree_def)
  from inserted[OF 0 this] show ?thesis .
qed

lemma exMoveTree_reachable: "reachable exBounds 1 exMoveTree"
proof -
  have "Insert (Suc (Suc 0)) exFullTree exC = Inr (True, exMoveTree)"
    by (simp add: Insert_def Contains_def SubDivide_def insertChildren_def Let_def ex_defs
        exFullTree_def exMoveTree_def)
  from inserted[OF exFullTree_reachable this] show ?thesis .
qed

lemma int64_small: "0 \<le> x \<Longrightarrow> x < 2 ^ 63 \<Longrightarrow> int64 x = x"
  by (simp add: int64_def)

section \<open>The sort\<close>

lemma insertKey_placeKey:
  "insertKey (pre @ x # post) key (length pre) = placeKey pre key @ post"
proof (induction pre arbitrary: x post rule: rev_induct)
  case Nil
  show ?case by (simp add: placeKey_def)
next
  case (snoc y pre)
  have nth: "(pre @ y # x # post) ! length pre = y" by simp
  have upd: "(pre @ y # x # post)[Suc (length pre) := v] = pre @ y # v # post" for v
    by (simp add: list_update_append)
  show ?case
  proof (cases "snd y > snd key")
    case True
    have "insertKey ((pre @ [y]) @ x # post) key (length (pre @ [y]))
        = insertKey (pre @ y # y # post) key (length pre)"
      using True nth upd by simp
    also have "\<dots> = placeKey pre key @ y # post" by (rule snoc.IH)
    also have "\<dots> = placeKey (pre @ [y]) key @ post" using True by (simp add: placeKey_def)
    finally show ?thesis .
  next
    case False
    then show ?thesis using nth upd by (simp add: placeKey_def)
  qed
qed

lemma length_placeKey [simp]: "length (placeKey pre key) = Suc (length pre)"
proof -
  have "length (takeWhile P xs) + length (dropWhile P xs) = length xs" for P and xs :: "'a PointWithDistance list"
    by (metis length_append takeWhile_dropWhile_id)
  from this[of "\<lambda>y. snd y > snd key" "rev pre"] show ?thesis by (simp add: placeKey_def)
qed

lemma sortLoop_fold:
  "sortLoop (length pre) (pre @ rest) = fold (\<lambda>key acc. placeKey acc key) rest pre"
proof (induction rest arbitrary: pre)
  case Nil
  show ?case by (subst sortLoop.simps) simp
next
  case (Cons x rest)
  have "sortLoop (length pre) (pre @ x # rest)
      = sortLoop (length pre + 1) (insertKey (pre @ x # rest) x (length pre))"
    by (subst sortLoop.simps) simp
  also have "\<dots> = sortLoop (length (placeKey pre x)) (placeKey pre x @ rest)"
    by (simp add: insertKey_placeKey)
  also have "\<dots> = fold (\<lambda>key acc. placeKey acc key) rest (placeKey pre x)" by (rule Cons.IH)
  finally show ?case by simp
qed

lemma sortByDistance_fold:
  "sortByDistance points = (case points of [] \<Rightarrow> [] | x # rest \<Rightarrow> fold (\<lambda>key acc. placeKey acc key) rest [x])"
proof (cases points)
  case Nil
  then show ?thesis by (simp add: sortByDistance_def sortLoop.simps)
next
  case (Cons x rest)
  have "sortLoop 1 ([x] @ rest) = fold (\<lambda>key acc. placeKey acc key) rest [x]"
    using sortLoop_fold[of "[x]" rest] by simp
  with Cons show ?thesis by (simp add: sortByDistance_def)
qed


lemma placeKey_Nil [simp]: "placeKey [] key = [key]"
  by (simp add: placeKey_def)

lemma placeKey_snoc:
  "placeKey (pre @ [y]) key =
     (if snd y > snd key then placeKey pre key @ [y] else pre @ [y, key])"
  by (simp add: placeKey_def)

lemma mset_placeKey [simp]: "mset (placeKey pre key) = add_mset key (mset pre)"
  by (induction pre rule: rev_induct) (simp_all add: placeKey_snoc)

lemma sorted_placeKey:
  "sorted_wrt (\<lambda>a b. snd a \<le> snd b) pre \<Longrightarrow> sorted_wrt (\<lambda>a b. snd a \<le> snd b) (placeKey pre key)"
proof (induction pre rule: rev_induct)
  case Nil
  show ?case by simp
next
  case (snoc y pre)
  from snoc.prems have sp: "sorted_wrt (\<lambda>a b. snd a \<le> snd b) pre" and le: "\<forall>a\<in>set pre. snd a \<le> snd y"
    by (simp_all add: sorted_wrt_append)
  show ?case
  proof (cases "snd y > snd key")
    case True
    have "set (placeKey pre key) = insert key (set pre)"
      using mset_placeKey[of pre key] by (metis set_mset_add_mset_insert set_mset_mset)
    with True le snoc.IH[OF sp] show ?thesis
      by (auto simp: placeKey_snoc sorted_wrt_append)
  next
    case False
    with le sp show ?thesis
      by (auto simp: placeKey_snoc sorted_wrt_append)
  qed
qed

lemma filter_placeKey:
  "filter (\<lambda>y. snd y = d) (placeKey pre key) = filter (\<lambda>y. snd y = d) (pre @ [key])"
  by (induction pre rule: rev_induct) (auto simp: placeKey_snoc)

lemma fold_placeKey_mset:
  "mset (fold (\<lambda>key acc. placeKey acc key) rest pre) = mset pre + mset rest"
  by (induction rest arbitrary: pre) simp_all

lemma fold_placeKey_sorted:
  "sorted_wrt (\<lambda>a b. snd a \<le> snd b) pre \<Longrightarrow>
   sorted_wrt (\<lambda>a b. snd a \<le> snd b) (fold (\<lambda>key acc. placeKey acc key) rest pre)"
  by (induction rest arbitrary: pre) (simp_all add: sorted_placeKey)

lemma fold_placeKey_filter:
  "filter (\<lambda>y. snd y = d) (fold (\<lambda>key acc. placeKey acc key) rest pre) =
   filter (\<lambda>y. snd y = d) (pre @ rest)"
  by (induction rest arbitrary: pre) (simp_all add: filter_placeKey)

lemma sortByDistance_mset [simp]: "mset (sortByDistance points) = mset points"
  by (cases points) (simp_all add: sortByDistance_fold fold_placeKey_mset)

lemma sortByDistance_length [simp]: "length (sortByDistance points) = length points"
  using sortByDistance_mset[of points] by (metis size_mset)

lemma sortByDistance_sorted: "sorted_wrt (\<lambda>a b. snd a \<le> snd b) (sortByDistance points)"
  by (cases points) (simp_all add: sortByDistance_fold fold_placeKey_sorted)

lemma sortByDistance_stable:
  "filter (\<lambda>y. snd y = d) (sortByDistance points) = filter (\<lambda>y. snd y = d) points"
  by (cases points) (simp_all add: sortByDistance_fold fold_placeKey_filter)

lemma ranked_mset [simp]: "mset (ranked target found) = mset found"
proof -
  have "mset (ranked target found)
      = image_mset fst (mset (sortByDistance (map (\<lambda>p. (p, Distance target p)) found)))"
    by (simp add: ranked_def)
  also have "\<dots> = image_mset fst (image_mset (\<lambda>p. (p, Distance target p)) (mset found))"
    by simp
  also have "\<dots> = mset found" by (simp add: multiset.map_comp comp_def)
  finally show ?thesis .
qed

lemma ranked_length [simp]: "length (ranked target found) = length found"
  by (simp add: ranked_def)

lemma sortByDistance_set:
  "set (sortByDistance points) = set points"
  using sortByDistance_mset[of points] by (rule mset_eq_setD)

lemma ranked_sorted:
  "sorted_wrt (\<lambda>p q. Distance target p \<le> Distance target q) (ranked target found)"
proof -
  let ?pw = "map (\<lambda>p. (p, Distance target p)) found"
  have el: "snd x = Distance target (fst x)" if "x \<in> set (sortByDistance ?pw)" for x
    using that by (auto simp: sortByDistance_set)
  have "sorted_wrt (\<lambda>a b. Distance target (fst a) \<le> Distance target (fst b)) (sortByDistance ?pw)"
    using sortByDistance_sorted[of ?pw]
    by (rule sorted_wrt_mono_rel[rotated]) (simp add: el)
  then show ?thesis by (simp add: ranked_def sorted_wrt_map)
qed

lemma ranked_stable:
  "filter (\<lambda>p. Distance target p = d) (ranked target found) =
   filter (\<lambda>p. Distance target p = d) found"
proof -
  let ?pw = "map (\<lambda>p. (p, Distance target p)) found"
  have el: "snd x = Distance target (fst x)" if "x \<in> set (sortByDistance ?pw)" for x
    using that by (auto simp: sortByDistance_set)
  have "filter (\<lambda>p. Distance target p = d) (ranked target found)
      = map fst (filter (\<lambda>x. Distance target (fst x) = d) (sortByDistance ?pw))"
    by (simp add: ranked_def filter_map comp_def)
  also have "filter (\<lambda>x. Distance target (fst x) = d) (sortByDistance ?pw)
      = filter (\<lambda>x. snd x = d) (sortByDistance ?pw)"
    by (rule filter_cong) (simp_all add: el)
  also have "\<dots> = filter (\<lambda>x. snd x = d) ?pw" by (rule sortByDistance_stable)
  also have "map fst \<dots> = filter (\<lambda>p. Distance target p = d) found"
    by (simp add: filter_map comp_def)
  finally show ?thesis .
qed

lemma KNearest_ranked:
  assumes "0 < k" "Root qt = Some rn"
    and "expandSearch rn target k (if int64 (k * 10) > 100000 then 100000 else int64 (k * 10))
           (max (Width (Bounds rn)) (Height (Bounds rn)) * 2) 10 [] = Some found"
  shows "KNearest qt target k = Some (take (nat k) (ranked target found))"
proof (cases "found = []")
  case True
  with assms show ?thesis by (simp add: KNearest_def Let_def ranked_def sortByDistance_fold)
next
  case False
  with assms show ?thesis
    by (simp add: KNearest_def Let_def ranked_def take_map)
qed

section \<open>The expanding search\<close>

lemma expandSearch_unfold:
  "expandSearch rn t k mp mr r results =
     (if r \<le> mr then
        if int (length (SearchTree rn (squareAround t r) [])) \<ge> k \<or> r \<ge> mr \<or>
           int (length (SearchTree rn (squareAround t r) [])) > mp
        then Some (SearchTree rn (squareAround t r) [])
        else expandSearch rn t k mp mr (r * 2) (SearchTree rn (squareAround t r) [])
      else Some results)"
  by (subst expandSearch.simps) (simp add: Let_def squareAround_def)

lemma expandSearch_returns_aux:
  "0 < r \<Longrightarrow> mr < r * 2 ^ n \<Longrightarrow>
   \<exists>res. expandSearch rn t k mp mr r results = Some res \<and>
     (res = results \<or> (\<exists>r'. res = SearchTree rn (squareAround t r') []))"
proof (induction n arbitrary: r results)
  case 0
  then show ?case by (subst expandSearch_unfold) simp
next
  case (Suc n)
  have "\<exists>res. expandSearch rn t k mp mr (r * 2) rs = Some res \<and>
     (res = rs \<or> (\<exists>r'. res = SearchTree rn (squareAround t r') []))" for rs
    using Suc.prems by (intro Suc.IH) (simp_all add: mult.assoc)
  then show ?case by (subst expandSearch_unfold) auto
qed

lemma expandSearch_returns:
  assumes "0 < r"
  shows "\<exists>res. expandSearch rn t k mp mr r results = Some res \<and>
     (res = results \<or> (\<exists>r'. res = SearchTree rn (squareAround t r') []))"
proof -
  obtain n where "mr / r < 2 ^ n" using real_arch_pow[of 2 "mr / r"] by auto
  with assms have "mr < r * 2 ^ n" by (simp add: field_simps)
  from expandSearch_returns_aux[OF assms this] show ?thesis .
qed

text \<open>In exact arithmetic a square of half-width at least the larger side of a rectangle,
  around a point of the rectangle, contains the rectangle.\<close>

lemma squares_cover_root:
  "Contains b target \<Longrightarrow> Contains b p \<Longrightarrow> max (Width b) (Height b) \<le> r \<Longrightarrow>
   Contains (squareAround target r) p"
  by (simp add: Contains_def squareAround_def)

lemma search_all:
  assumes w: "wellformed c rn" and a: "\<forall>p\<in>#stored rn. Contains area p"
  shows "mset (SearchTree rn area []) = stored rn"
proof -
  from a have "filter_mset (Contains area) (stored rn) = stored rn"
    by (simp add: filter_mset_eq_conv)
  with SearchTree_mset[OF w, of area "[]"] show ?thesis by simp
qed

lemma expandSearch_complete:
  assumes w: "wellformed c rn"
    and cov: "\<forall>r. m \<le> r \<longrightarrow> (\<forall>p\<in>#stored rn. Contains (squareAround target r) p)"
    and nonneg: "0 \<le> m" and mr: "mr = m * 2"
    and kmp: "k \<le> mp \<or> int (size (stored rn)) \<le> mp"
  shows "0 < r \<Longrightarrow> mr < r * 2 ^ n \<Longrightarrow>
     r \<le> mr \<or> (mset results \<subseteq># stored rn \<and> (k \<le> int (length results) \<or> mset results = stored rn)) \<Longrightarrow>
     \<exists>res. expandSearch rn target k mp mr r results = Some res \<and>
       mset res \<subseteq># stored rn \<and> (k \<le> int (length res) \<or> mset res = stored rn)"
proof (induction n arbitrary: r results)
  case 0
  then show ?case by (subst expandSearch_unfold) simp
next
  case (Suc n)
  let ?found = "SearchTree rn (squareAround target r) []"
  have sub: "mset ?found \<subseteq># stored rn"
    using SearchTree_mset[OF w, of "squareAround target r" "[]"] by simp
  show ?case
  proof (cases "r \<le> mr")
    case False
    with Suc.prems show ?thesis by (subst expandSearch_unfold) simp
  next
    case le: True
    show ?thesis
    proof (cases "k \<le> int (length ?found)")
      case True
      with le sub show ?thesis by (subst expandSearch_unfold) simp
    next
      case short: False
      show ?thesis
      proof (cases "mr \<le> r")
        case True
        with nonneg mr have "m \<le> r" by linarith
        with cov have "\<forall>p\<in>#stored rn. Contains (squareAround target r) p" by simp
        from search_all[OF w this] le True sub show ?thesis
          by (subst expandSearch_unfold) simp
      next
        case below: False
        from size_mset_mono[OF sub] have "int (length ?found) \<le> int (size (stored rn))" by simp
        with short kmp have nmp: "\<not> mp < int (length ?found)" by linarith
        have inv: "r * 2 \<le> mr \<or>
            (mset ?found \<subseteq># stored rn \<and> (k \<le> int (length ?found) \<or> mset ?found = stored rn))"
        proof (cases "r * 2 \<le> mr")
          case True
          then show ?thesis by simp
        next
          case False
          with mr have "m \<le> r" by linarith
          with cov have "\<forall>p\<in>#stored rn. Contains (squareAround target r) p" by simp
          from search_all[OF w this] sub show ?thesis by simp
        qed
        have "\<exists>res. expandSearch rn target k mp mr (r * 2) ?found = Some res \<and>
            mset res \<subseteq># stored rn \<and> (k \<le> int (length res) \<or> mset res = stored rn)"
          using Suc.prems(1,2) inv by (intro Suc.IH) (simp_all add: mult.assoc)
        with le short below nmp show ?thesis by (subst expandSearch_unfold) simp
      qed
    qed
  qed
qed

section \<open>What holds in exact arithmetic\<close>

text \<open>
  The two lemmas of this section hold of the model, whose sums are exact, and of the source
  on the runs in which no sum rounds; they say nothing of a run of the source in which a
  child's edge \<open>(x + w/2) + w/2\<close> falls below the parent's edge \<open>x + w\<close>.

  In exact arithmetic, in a tree reached by returning calls, a search returns exactly the
  points held that lie in the rectangle, each as often as it is held; a successful insertion
  adds the point once, a successful removal takes out one held point with the coordinates
  given, a successful update does both, and a call that returns false changes nothing.
\<close>

lemma exact_Search_finds_live_points:
  assumes "reachable b cap qt"
  shows "mset (Search qt area) = filter_mset (Contains area) (contents qt) \<and>
    (\<forall>fuel p qt'. Insert fuel qt p = Inr (True, qt') \<longrightarrow>
       contents qt' = add_mset p (contents qt)) \<and>
    (\<forall>fuel p qt'. Insert fuel qt p = Inr (False, qt') \<longrightarrow> contents qt' = contents qt) \<and>
    (\<forall>p qt'. Remove qt p = Inr (True, qt') \<longrightarrow>
       (\<exists>q. X q = X p \<and> Y q = Y p \<and> contents qt = add_mset q (contents qt'))) \<and>
    (\<forall>p qt'. Remove qt p = Inr (False, qt') \<longrightarrow> contents qt' = contents qt) \<and>
    (\<forall>fuel old new qt'. Update fuel qt old new = Inr (True, qt') \<longrightarrow>
       (\<exists>q M. X q = X old \<and> Y q = Y old \<and> contents qt = add_mset q M \<and>
          contents qt' = add_mset new M)) \<and>
    (\<forall>fuel old new qt'. Update fuel qt old new = Inr (False, qt') \<longrightarrow>
       contents qt' = contents qt)"
proof -
  note ro = reachable_rooted[OF assms]
  then obtain rn where rn: "Root qt = Some rn" "wellformed cap rn" "Bounds rn = b"
    by (auto simp: rooted_def)
  have 1: "mset (Search qt area) = filter_mset (Contains area) (contents qt)"
    using rn SearchTree_mset[OF rn(2), of area "[]"] by (simp add: Search_def contents_def)
  have 2: "contents qt' = add_mset p (contents qt)" if "Insert fuel qt p = Inr (True, qt')"
    for fuel p qt' using Insert_rooted[OF ro that] by simp
  have 3: "contents qt' = contents qt" if "Insert fuel qt p = Inr (False, qt')"
    for fuel p qt' using Insert_rooted[OF ro that] by simp
  have 4: "\<exists>q. X q = X p \<and> Y q = Y p \<and> contents qt = add_mset q (contents qt')"
    if "Remove qt p = Inr (True, qt')" for p qt' using Remove_effect[OF that] by simp
  have 5: "contents qt' = contents qt" if "Remove qt p = Inr (False, qt')"
    for p qt' using Remove_effect[OF that] by simp
  have 6: "\<exists>q M. X q = X old \<and> Y q = Y old \<and> contents qt = add_mset q M \<and>
          contents qt' = add_mset new M" if "Update fuel qt old new = Inr (True, qt')"
    for fuel old new qt' using Update_rooted[OF ro that] by simp
  have 7: "contents qt' = contents qt" if "Update fuel qt old new = Inr (False, qt')"
    for fuel old new qt' using Update_rooted[OF ro that] by simp
  from 1 2 3 4 5 6 7 show ?thesis by blast
qed

text \<open>
  In exact arithmetic, in a tree reached by returning calls, an update that returns either
  returns true, and then one held point with the coordinates of \<open>oldPoint\<close> is gone and
  \<open>newPoint\<close> is added, or returns false, and then the tree is the one before the call.
  With any arithmetic it returns false without a change when \<open>newPoint\<close> is outside the
  root's bounds or no held point has the coordinates of \<open>oldPoint\<close>.
\<close>

lemma exact_Update_all_or_nothing:
  assumes "reachable b cap qt"
  shows "(\<forall>res qt'. Update fuel qt oldPoint newPoint = Inr (res, qt') \<longrightarrow>
            (res \<and> (\<exists>q M. X q = X oldPoint \<and> Y q = Y oldPoint \<and>
                 contents qt = add_mset q M \<and> contents qt' = add_mset newPoint M)) \<or>
            (\<not> res \<and> qt' = qt)) \<and>
         (\<not> Contains b newPoint \<or>
          (\<forall>q\<in>#contents qt. \<not> (X q = X oldPoint \<and> Y q = Y oldPoint)) \<longrightarrow>
            Update fuel qt oldPoint newPoint = Inr (False, qt))"
proof -
  note ro = reachable_rooted[OF assms]
  then obtain rn where rn: "Root qt = Some rn" "wellformed cap rn" "Bounds rn = b"
    by (auto simp: rooted_def)
  have e: "qt\<lparr>Root := Some rn\<rparr> = qt" using rn by simp
  have 1: "(res \<and> (\<exists>q M. X q = X oldPoint \<and> Y q = Y oldPoint \<and>
                 contents qt = add_mset q M \<and> contents qt' = add_mset newPoint M)) \<or>
            (\<not> res \<and> qt' = qt)"
    if u: "Update fuel qt oldPoint newPoint = Inr (res, qt')" for res qt'
    using Update_rooted[OF ro u] by (cases res) simp_all
  have 2: "Update fuel qt oldPoint newPoint = Inr (False, qt)" if "\<not> Contains b newPoint"
    using that rn by (simp add: Update_def)
  have 3: "Update fuel qt oldPoint newPoint = Inr (False, qt)"
    if "\<forall>q\<in>#contents qt. \<not> (X q = X oldPoint \<and> Y q = Y oldPoint)"
  proof -
    from that rn have "fst (RemoveNode rn oldPoint) = False"
      by (intro RemoveNode_no_match) (simp add: contents_def)
    then have "RemoveNode rn oldPoint = (False, rn)" by (simp add: RemoveNode_noop)
    with rn e show ?thesis by (simp add: Update_def)
  qed
  from 1 2 3 show ?thesis by blast
qed

text \<open>The loop of \<open>SubDivide\<close> has no branch for a point that all four children refuse:
  the point is in none of them afterwards, and \<open>SubDivide\<close> then clears the node's slice.\<close>

lemma reinsert_refused:
  "insertChildren ins cs p = Some (False, cs') \<Longrightarrow> reinsert ins (p # ps) cs = reinsert ins ps cs'"
  by simp

section \<open>Properties\<close>

text \<open>
  Claim C2, as amended. In a tree reached by returning calls whose root is at least 5 wide
  or 5 high, for a \<open>k > 0\<close> whose tenfold is still an \<open>int\<close> of the source, with \<open>k\<close> or the
  number \<open>n\<close> of points held at most 100000, and for a target around which every search
  square of half-width at least the larger side of the root, with the corner and the sides
  that \<open>KNearest\<close> computes, contains every point held, \<open>KNearest\<close> returns \<open>min k n\<close>
  points; when \<open>k\<close> is at least \<open>n\<close> it returns every point held, ordered by distance from
  the target. The condition on the squares is a hypothesis, not derived: in exact arithmetic
  every target within the root's bounds meets it (\<open>squares_cover_root\<close>), in \<open>float64\<close> the
  computed edge \<open>(target.X - r) + 2r\<close> can fall short of a point held.
\<close>

theorem KNearest_length:
  assumes re: "reachable b cap qt"
    and big: "5 \<le> max (Width b) (Height b)" and k: "0 < k" "k * 10 < 2 ^ 63"
    and few: "k \<le> 100000 \<or> size (contents qt) \<le> 100000"
    and squares: "\<forall>r. max (Width b) (Height b) \<le> r \<longrightarrow>
      (\<forall>p\<in>#contents qt. Contains (squareAround target r) p)"
  shows "\<exists>res. KNearest qt target k = Some res \<and>
     length res = min (nat k) (size (contents qt)) \<and>
     (size (contents qt) \<le> nat k \<longrightarrow>
        mset res = contents qt \<and>
        sorted_wrt (\<lambda>p q. Distance target p \<le> Distance target q) res)"
proof -
  from reachable_rooted[OF re] obtain rn where
    rn: "Root qt = Some rn" "wellformed cap rn" "Bounds rn = b"
    by (auto simp: rooted_def)
  let ?mp = "if int64 (k * 10) > 100000 then 100000 else int64 (k * 10)"
  let ?mr = "max (Width (Bounds rn)) (Height (Bounds rn)) * 2"
  have c: "contents qt = stored rn" using rn by (simp add: contents_def)
  have i64: "int64 (k * 10) = k * 10" using k by (intro int64_small) simp_all
  have kmp: "k \<le> ?mp \<or> int (size (stored rn)) \<le> ?mp"
    using k few unfolding c i64 by auto
  have ten: "10 \<le> ?mr" using big rn(3) by simp
  obtain n where "?mr / 10 < 2 ^ n" using real_arch_pow[of 2 "?mr / 10"] by auto
  then have n: "?mr < 10 * 2 ^ n" by (simp add: field_simps)
  have cov: "\<forall>r. max (Width (Bounds rn)) (Height (Bounds rn)) \<le> r \<longrightarrow>
      (\<forall>p\<in>#stored rn. Contains (squareAround target r) p)"
    using squares unfolding c rn(3) .
  have nonneg: "0 \<le> max (Width (Bounds rn)) (Height (Bounds rn))" using big rn(3) by simp
  from expandSearch_complete[OF rn(2) cov nonneg refl kmp _ n, of "[]"] ten obtain found where
    f: "expandSearch rn target k ?mp ?mr 10 [] = Some found" and
    sub: "mset found \<subseteq># stored rn" and
    enough: "k \<le> int (length found) \<or> mset found = stored rn" by auto
  note kn = KNearest_ranked[OF k(1) rn(1) f]
  have le: "length found \<le> size (stored rn)" using size_mset_mono[OF sub] by simp
  have len: "length (take (nat k) (ranked target found)) = min (nat k) (size (contents qt))"
    using enough
  proof
    assume "k \<le> int (length found)"
    with le k show ?thesis unfolding c by simp
  next
    assume "mset found = stored rn"
    then have "length found = size (stored rn)" by (metis size_mset)
    then show ?thesis unfolding c by simp
  qed
  have all: "mset (take (nat k) (ranked target found)) = contents qt \<and>
      sorted_wrt (\<lambda>p q. Distance target p \<le> Distance target q) (take (nat k) (ranked target found))"
    if small: "size (contents qt) \<le> nat k"
  proof -
    have eq: "mset found = stored rn"
    proof (rule ccontr)
      assume ne: "mset found \<noteq> stored rn"
      with sub have "mset found \<subset># stored rn" by (simp add: subset_mset.less_le)
      then have "size (mset found) < size (stored rn)" by (rule mset_subset_size)
      moreover from ne enough have "k \<le> int (length found)" by simp
      ultimately show False using small unfolding c by simp
    qed
    then have "length found = size (stored rn)" by (metis size_mset)
    with small have "take (nat k) (ranked target found) = ranked target found"
      unfolding c by simp
    with eq ranked_sorted[of target found] show ?thesis unfolding c by simp
  qed
  from kn len all show ?thesis by blast
qed

theorem KNearest_length_witness:
  "\<exists>res. KNearest exSplitTree exA 5 = Some res \<and> length res = 2 \<and> mset res = {#exA, exC#}"
proof -
  have "5 \<le> max (Width exBounds) (Height exBounds)" by (simp add: exBounds_def)
  moreover have "\<forall>r. max (Width exBounds) (Height exBounds) \<le> r \<longrightarrow>
      (\<forall>p\<in>#contents exSplitTree. Contains (squareAround exA r) p)"
    by (simp add: contents_def exSplitTree_def Contains_def squareAround_def ex_defs)
  ultimately show ?thesis
    using KNearest_length[OF exSplitTree_reachable, of 5 exA]
    by (auto simp: contents_def exSplitTree_def add_mset_commute)
qed

text \<open>
  The claim as first stated, for every target, fails: the search radius stops at twice the
  larger side of the root, so a target far outside the root's bounds finds nothing. The tree
  below holds two points, and a search for the nearest one to \<open>(1000, 1000)\<close> returns none.
\<close>

theorem KNearest_far_target_counterexample:
  "reachable exBounds 1 exSplitTree \<and> size (contents exSplitTree) = 2 \<and>
   KNearest exSplitTree exFar 1 = Some []"
proof -
  have "KNearest exSplitTree exFar 1 = Some []"
    by (simp add: KNearest_def exSplitTree_def exFar_def exBounds_def int64_small Let_def
        expandSearch_unfold squareAround_def Intersects_def)
  moreover have "size (contents exSplitTree) = 2"
    by (simp add: contents_def exSplitTree_def)
  ultimately show ?thesis using exSplitTree_reachable by simp
qed

text \<open>
  A root smaller than 5 by 5 is left out of the amended claim: its ceiling on the radius is
  below the first radius, 10, so the body of the loop never runs and nothing is found.
\<close>

lemma KNearest_small_root:
  "KNearest \<lparr>Root = Some (Leaf \<lparr>Bounds.X = 0, Bounds.Y = 0, Width = 4, Height = 4\<rparr>
       [\<lparr>X = 1, Y = 1, Data = ''a''\<rparr>] 4)\<rparr> \<lparr>X = 1, Y = 1, Data = ''t''\<rparr> 1 = Some []"
  by (simp add: KNearest_def int64_small Let_def expandSearch_unfold)

text \<open>
  Claim C3. The insertion into a node terminates for every tree reached through the
  operations and every point within the root's bounds. The source does not: a leaf of
  capacity 1 that holds a point at the corner of its bounds is reached by one insertion,
  and the insertion of a second point with the same coordinates returns for no fuel. Each
  subdivision puts both points into the same quadrant again.
\<close>

theorem InsertNode_coincident_never_returns:
  "reachable exBounds 1 exFullTree \<and> Contains exBounds exO2 \<and>
   (\<forall>fuel. InsertNode fuel (Leaf exBounds [exO] 1) exO2 = None)"
  using exFullTree_reachable coincident_diverges[of exO exBounds exO2]
  by (simp add: Contains_def exBounds_def exO_def exO2_def)

text \<open>
  Claim C4. \<open>Insert\<close> returns false exactly for the points outside the root's bounds, and
  accepts every point within them. In the tree of claim C3 the point is within the root's
  bounds and \<open>Insert\<close> returns neither true nor false, for any fuel.
\<close>

theorem Insert_coincident_not_accepted:
  "reachable exBounds 1 exFullTree \<and> Contains exBounds exO2 \<and>
   (\<forall>fuel. Insert fuel exFullTree exO2 = Inl OutOfFuel)"
  using exFullTree_reachable coincident_diverges[of exO exBounds exO2]
  by (simp add: Insert_def exFullTree_def Contains_def exBounds_def exO_def exO2_def)

text \<open>
  Claim C5. \<open>Update\<close> is all or nothing: it returns true with the point moved, or false
  with the points held unchanged. The source does neither in the tree below, reached by two
  insertions at capacity 1: it holds \<open>(0, 0)\<close> and \<open>(60, 60)\<close>, the update of \<open>(60, 60)\<close> to
  \<open>(0, 0)\<close> passes the test of the bounds, removes the old point, and the insertion of the
  new one never returns, for any fuel: the leaf that holds \<open>(0, 0)\<close> is full and no
  subdivision separates the two points (the recursion of claims C3 and C4).
\<close>

theorem Update_coincident_never_returns:
  "reachable exBounds 1 exMoveTree \<and> exC \<in># contents exMoveTree \<and> Contains exBounds exO2 \<and>
   (\<forall>fuel. Update fuel exMoveTree exC exO2 = Inl OutOfFuel)"
proof -
  let ?nw = "\<lparr>Bounds.X = 0, Bounds.Y = 0, Width = 50, Height = 50\<rparr>"
  let ?r1 = "Split exBounds [] 1
      (Leaf ?nw [exO] 1)
      (Leaf \<lparr>Bounds.X = 50, Bounds.Y = 0, Width = 50, Height = 50\<rparr> [] 1)
      (Leaf \<lparr>Bounds.X = 0, Bounds.Y = 50, Width = 50, Height = 50\<rparr> [] 1)
      (Leaf \<lparr>Bounds.X = 50, Bounds.Y = 50, Width = 50, Height = 50\<rparr> [] 1) :: string Node"
  have rem: "RemoveNode (the (Root exMoveTree)) exC = (True, ?r1)"
    by (simp add: exMoveTree_def Contains_def ex_defs)
  have nw: "InsertNode fuel (Leaf ?nw [exO] 1) exO2 = None" for fuel
    by (rule coincident_diverges) (simp_all add: ex_defs)
  have ins: "InsertNode fuel ?r1 exO2 = None" for fuel
  proof (cases fuel)
    case 0
    then show ?thesis by simp
  next
    case (Suc f)
    with nw[of f] show ?thesis by (simp add: insertChildren_def Contains_def ex_defs)
  qed
  have "Update fuel exMoveTree exC exO2 = Inl OutOfFuel" for fuel
    using rem ins[of fuel] by (simp add: Update_def exMoveTree_def Contains_def ex_defs)
  moreover have "exC \<in># contents exMoveTree" by (simp add: contents_def exMoveTree_def)
  moreover have "Contains exBounds exO2" by (simp add: Contains_def ex_defs)
  ultimately show ?thesis using exMoveTree_reachable by simp
qed

text \<open>
  Claim C6. For every tree, target and \<open>k\<close>, \<open>KNearest\<close> returns, and what it returns is
  ordered by non-decreasing distance from the target; points at the same distance keep the
  order in which the last search found them: at each distance, the points returned are
  the first of those the search found at that distance, in the same order.
\<close>

theorem KNearest_sorted_stable:
  "\<exists>res. KNearest qt target k = Some res \<and>
     sorted_wrt (\<lambda>p q. Distance target p \<le> Distance target q) res \<and>
     (res = [] \<or>
      (\<exists>searchRadius. \<forall>d.
         prefix (filter (\<lambda>p. Distance target p = d) res)
           (filter (\<lambda>p. Distance target p = d) (Search qt (squareAround target searchRadius)))))"
proof (cases "0 < k")
  case False
  then show ?thesis by (simp add: KNearest_def)
next
  case k: True
  show ?thesis
  proof (cases "Root qt")
    case None
    with k show ?thesis by (simp add: KNearest_def)
  next
    case (Some rn)
    let ?mp = "if int64 (k * 10) > 100000 then 100000 else int64 (k * 10)"
    let ?mr = "max (Width (Bounds rn)) (Height (Bounds rn)) * 2"
    from expandSearch_returns[of 10 rn target k ?mp ?mr "[]"] obtain found where
      f: "expandSearch rn target k ?mp ?mr 10 [] = Some found" and
      o: "found = [] \<or> (\<exists>r'. found = SearchTree rn (squareAround target r') [])" by auto
    note kn = KNearest_ranked[OF k Some f]
    let ?res = "take (nat k) (ranked target found)"
    have s: "sorted_wrt (\<lambda>p q. Distance target p \<le> Distance target q) ?res"
      using ranked_sorted[of target found] by (rule sorted_wrt_take)
    have p: "prefix (filter (\<lambda>p. Distance target p = d) ?res)
        (filter (\<lambda>p. Distance target p = d) found)" for d
    proof -
      have "prefix ?res (ranked target found)" by (rule take_is_prefix)
      then have "prefix (filter (\<lambda>p. Distance target p = d) ?res)
          (filter (\<lambda>p. Distance target p = d) (ranked target found))" by (rule filter_mono_prefix)
      then show ?thesis by (simp only: ranked_stable)
    qed
    from o show ?thesis
    proof
      assume "found = []"
      with kn s show ?thesis by (simp add: ranked_def sortByDistance_fold)
    next
      assume "\<exists>r'. found = SearchTree rn (squareAround target r') []"
      then obtain r' where "found = Search qt (squareAround target r')"
        using Some by (auto simp: Search_def)
      with kn s p show ?thesis by blast
    qed
  qed
qed

text \<open>
  Claim C7. In every tree reached by returning calls of \<open>Insert\<close>, \<open>Remove\<close> and \<open>Update\<close>
  from a tree created with a capacity that is not negative, every node has that capacity
  and every leaf holds at most that many points.
\<close>

theorem capacity_invariant:
  assumes "reachable b cap qt" and "0 \<le> cap"
  shows "\<exists>rootNode. Root qt = Some rootNode \<and> withinCapacity cap rootNode"
  using reachable_rooted[OF assms(1)] assms(2) wellformed_withinCapacity
  by (auto simp: rooted_def)

theorem capacity_invariant_witness:
  "\<exists>rootNode. Root exSplitTree = Some rootNode \<and> withinCapacity 1 rootNode"
  using capacity_invariant[OF exSplitTree_reachable] by simp

text \<open>
  Claim C8. In every tree with a root, \<open>Remove\<close> returns false and leaves the tree as it
  was when the point is outside the root's bounds or no held point has its coordinates; and
  whenever it returns false, the tree is unchanged.
\<close>

theorem Remove_failure_unchanged:
  assumes "Root qt = Some rootNode"
  shows "(\<not> Contains (Bounds rootNode) point \<or>
          (\<forall>q\<in>#contents qt. \<not> (X q = X point \<and> Y q = Y point)) \<longrightarrow>
            Remove qt point = Inr (False, qt)) \<and>
         (\<forall>qt'. Remove qt point = Inr (False, qt') \<longrightarrow> qt' = qt)"
proof -
  have e: "qt\<lparr>Root := Some rootNode\<rparr> = qt" using assms by simp
  have a: "Remove qt point = Inr (False, qt)" if "\<not> Contains (Bounds rootNode) point"
    using that assms e by (cases rootNode) (simp_all add: Remove_def)
  have b: "Remove qt point = Inr (False, qt)"
    if "\<forall>q\<in>#contents qt. \<not> (X q = X point \<and> Y q = Y point)"
  proof -
    from that assms have "fst (RemoveNode rootNode point) = False"
      by (intro RemoveNode_no_match) (simp add: contents_def)
    then have "RemoveNode rootNode point = (False, rootNode)" by (simp add: RemoveNode_noop)
    with assms e show ?thesis by (simp add: Remove_def)
  qed
  from a b Remove_effect[of qt point False] show ?thesis by blast
qed

theorem Remove_failure_unchanged_witness:
  "Remove exLeafTree \<lparr>X = 150, Y = 150, Data = ''z''\<rparr> = Inr (False, exLeafTree)"
  using Remove_failure_unchanged[of exLeafTree "Leaf exBounds [exA, exB] 4" "\<lparr>X = 150, Y = 150, Data = ''z''\<rparr>"]
  by (simp add: exLeafTree_def Contains_def ex_defs)

text \<open>
  Claim C9. For every pair of rectangles \<open>a\<close> and \<open>b\<close>, \<open>Intersects a b\<close> equals
  \<open>Intersects b a\<close>. The test compares the same four pairs of edges either way round, so
  the equality holds for all rectangles, those of non-negative width and height among them.
\<close>

theorem Intersects_symmetric: "Intersects a b = Intersects b a"
  unfolding Intersects_def by auto

text \<open>
  Claim C10. When two or more held points have the coordinates given, one call of
  \<open>Remove\<close> returns true and takes out exactly one of them: the points held before are
  those held after and the one removed, and a point with those coordinates is still held.
\<close>

theorem Remove_one_duplicate:
  assumes "reachable b cap qt"
    and "2 \<le> size (filter_mset (\<lambda>q. X q = X point \<and> Y q = Y point) (contents qt))"
  shows "\<exists>qt' r. Remove qt point = Inr (True, qt') \<and> X r = X point \<and> Y r = Y point \<and>
           contents qt = add_mset r (contents qt') \<and>
           (\<exists>s. s \<in># contents qt' \<and> X s = X point \<and> Y s = Y point)"
proof -
  let ?same = "\<lambda>q::'a Point. X q = X point \<and> Y q = Y point"
  from reachable_rooted[OF assms(1)] obtain rn where
    rn: "Root qt = Some rn" "wellformed cap rn" "Bounds rn = b"
    by (auto simp: rooted_def)
  from assms(2) have "1 \<le> size (filter_mset ?same (contents qt))" by simp
  then obtain q where q: "q \<in># contents qt" "?same q" by (rule filter_nonempty_obtains)
  with rn have "fst (RemoveNode rn point)"
    by (intro RemoveNode_finds[of cap rn q]) (simp_all add: contents_def)
  then obtain rn' where r: "RemoveNode rn point = (True, rn')" by (cases "RemoveNode rn point") auto
  with rn have rem: "Remove qt point = Inr (True, qt\<lparr>Root := Some rn'\<rparr>)"
    by (simp add: Remove_def)
  from Remove_effect[OF rem] obtain r where
    rr: "?same r" "contents qt = add_mset r (contents (qt\<lparr>Root := Some rn'\<rparr>))" by auto
  from assms(2) rr have "1 \<le> size (filter_mset ?same (contents (qt\<lparr>Root := Some rn'\<rparr>)))"
    by simp
  then obtain s where "s \<in># contents (qt\<lparr>Root := Some rn'\<rparr>)" "?same s"
    by (rule filter_nonempty_obtains)
  with rem rr show ?thesis by blast
qed

theorem Remove_one_duplicate_witness:
  "\<exists>qt' r. Remove exLeafTree exA = Inr (True, qt') \<and> X r = X exA \<and> Y r = Y exA \<and>
           contents exLeafTree = add_mset r (contents qt') \<and>
           (\<exists>s. s \<in># contents qt' \<and> X s = X exA \<and> Y s = Y exA)"
proof -
  have "2 \<le> size (filter_mset (\<lambda>q. X q = X exA \<and> Y q = Y exA) (contents exLeafTree))"
    by (simp add: contents_def exLeafTree_def ex_defs)
  from Remove_one_duplicate[OF exLeafTree_reachable this] show ?thesis .
qed

text \<open>
  Claim C1. Every point that was inserted with success and not removed or updated away
  since is returned exactly once by a search over a rectangle that contains it, whatever
  operations and subdivisions came in between. The source does not keep to that. In
  \<open>float64\<close> the quadrants of a node need not cover it: with bounds \<open>(3, 3, 1.2, 1.2)\<close> and
  capacity 1, \<open>Insert (3.2, 3.6)\<close> and then \<open>Insert (3.1, 3.4)\<close> both return true; the
  first point goes to the NW child, whose lower edge is \<open>3.0 + 0.6 = 3.6\<close>, and when that
  child subdivides its own children end at \<open>(3.0 + 0.3) + 0.3 = 3.5999999999999996\<close>, so
  none accepts the point and \<open>SubDivide\<close> drops it (\<open>reinsert_refused\<close>); no search
  returns it again. The model's sums are exact, so no theorem of it shows this run; what
  holds when no sum rounds is \<open>exact_Search_finds_live_points\<close>.
\<close>

end
